theory Spec2Isabelle
  imports Main "HOL-Library.Word"
begin

unbundle bit_operations_syntax

section \<open>Data model of \<open>biotite.sequence.align.pairwise\<close>\<close>

text \<open>
  The numeric tables of the module are \<open>int32\<close> arrays and the arithmetic on their cells
  is C arithmetic on \<open>int32\<close>. A cell value is modelled as an \<open>int\<close>, and every
  \<open>int32\<close> addition is followed by \<open>i32\<close>, the two's complement wrap-around to
  32 bits. The trace table is a \<open>uint8\<close> array, modelled with \<open>8 word\<close>.
\<close>

definition INT32_MIN :: int where
  "INT32_MIN = - 2147483648"

definition INT32_MAX :: int where
  "INT32_MAX = 2147483647"

definition i32 :: "int \<Rightarrow> int" where
  "i32 x = signed_take_bit 31 x"

definition in_i32 :: "int \<Rightarrow> bool" where
  "in_i32 x \<longleftrightarrow> INT32_MIN \<le> x \<and> x \<le> INT32_MAX"

type_synonym uint8 = "8 word"

type_synonym alphabet = string

text \<open>A \<open>Sequence\<close>: its alphabet and its code (indices into the alphabet).\<close>

record sequence =
  get_alphabet :: alphabet
  code :: "nat list"

text \<open>A \<open>SubstitutionMatrix\<close>: two alphabets and the dense score matrix.\<close>

record substitution_matrix =
  get_alphabet1 :: alphabet
  get_alphabet2 :: alphabet
  score_matrix :: "int list list"

text \<open>An \<open>Alignment\<close>: the two sequences, the trace (rows of two indices, \<open>-1\<close> for a
  gap) and the score.\<close>

record alignment =
  sequences :: "sequence \<times> sequence"
  trace :: "(int \<times> int) list"
  score :: int

text \<open>
  The exceptions the module raises. \<open>LengthMismatch\<close> is the \<open>ValueError\<close> for
  different sequence lengths, \<open>AlphabetMismatch\<close> the \<open>ValueError\<close> for alphabets that
  do not fit the matrix, \<open>InvalidGapPenalty\<close> the \<open>TypeError\<close> for a gap penalty that
  is neither integer nor tuple. \<open>IndexError\<close> and \<open>OverflowError\<close> are raised by the
  runtime: a checked index out of range, and a Python integer that does not fit a C \<open>int\<close>;
  \<open>EmptyReduction\<close> is the \<open>ValueError\<close> of \<open>np.min\<close> on an array without elements.
\<close>

datatype error = LengthMismatch | AlphabetMismatch | InvalidGapPenalty
  | IndexError | OverflowError | EmptyReduction

text \<open>The value passed as \<open>gap_penalty\<close>: an integer, a tuple of integers, or a value
  of any other type.\<close>

datatype gap_arg = GapInt int | GapTuple "int list" | GapOther

datatype ungapped_result = Score int | Aligned alignment

text \<open>Unchecked read of the score matrix (\<open>boundscheck(False)\<close> in the source).\<close>

definition matrix_at :: "int list list \<Rightarrow> nat \<Rightarrow> nat \<Rightarrow> int" where
  "matrix_at m a b = m ! a ! b"

text \<open>Dense two-dimensional arrays as lists of rows.\<close>

definition zeros :: "nat \<Rightarrow> nat \<Rightarrow> 'a::zero list list" where
  "zeros r c = replicate r (replicate c 0)"

definition shape0 :: "'a list list \<Rightarrow> nat" where
  "shape0 t = length t"

definition shape1 :: "'a list list \<Rightarrow> nat" where
  "shape1 t = (case t of [] \<Rightarrow> 0 | r # _ \<Rightarrow> length r)"

definition get2 :: "'a list list \<Rightarrow> nat \<Rightarrow> nat \<Rightarrow> 'a" where
  "get2 t i j = t ! i ! j"

definition set2 :: "'a list list \<Rightarrow> nat \<Rightarrow> nat \<Rightarrow> 'a \<Rightarrow> 'a list list" where
  "set2 t i j v = t[i := (t ! i)[j := v]]"

section \<open>Ungapped alignment\<close>

text \<open>\<open>_add_scores\<close>: the loop runs over the positions of \<open>code1\<close> and accumulates in an
  \<open>int32\<close>.\<close>

fun add_scores_loop :: "nat list \<Rightarrow> nat list \<Rightarrow> int list list \<Rightarrow> nat list \<Rightarrow> int \<Rightarrow> int" where
  "add_scores_loop code1 code2 m [] s = s"
| "add_scores_loop code1 code2 m (i # is) s =
     add_scores_loop code1 code2 m is (i32 (s + matrix_at m (code1 ! i) (code2 ! i)))"

definition add_scores :: "nat list \<Rightarrow> nat list \<Rightarrow> int list list \<Rightarrow> int" where
  "add_scores code1 code2 m = add_scores_loop code1 code2 m [0..<length code1] 0"

text \<open>The numpy operations that build the trivial trace:
  \<open>np.tile(np.arange(n), 2).reshape(2, n).transpose()\<close>.\<close>

definition arange :: "nat \<Rightarrow> int list" where
  "arange n = map int [0..<n]"

definition tile2 :: "'a list \<Rightarrow> 'a list" where
  "tile2 xs = xs @ xs"

definition reshape2 :: "nat \<Rightarrow> 'a list \<Rightarrow> 'a list \<times> 'a list" where
  "reshape2 n xs = (take n xs, take n (drop n xs))"

definition transpose2 :: "'a list \<times> 'a list \<Rightarrow> ('a \<times> 'a) list" where
  "transpose2 rows = zip (fst rows) (snd rows)"

definition align_ungapped ::
  "sequence \<Rightarrow> sequence \<Rightarrow> substitution_matrix \<Rightarrow> bool \<Rightarrow> error + ungapped_result" where
  "align_ungapped seq1 seq2 matrix score_only =
     (if length (code seq1) \<noteq> length (code seq2) then Inl LengthMismatch
      else if get_alphabet1 matrix \<noteq> get_alphabet seq1
              \<and> get_alphabet2 matrix \<noteq> get_alphabet seq2 then Inl AlphabetMismatch
      else let s = add_scores (code seq1) (code seq2) (score_matrix matrix) in
        if score_only then Inr (Score s)
        else let seq_length = length (code seq1) in
          Inr (Aligned \<lparr> sequences = (seq1, seq2),
                         trace = transpose2 (reshape2 seq_length (tile2 (arange seq_length))),
                         score = s \<rparr>))"

section \<open>Table filling, general gap penalty\<close>

text \<open>The three-way maximum with its trace value, as the \<open>if\<close>/\<open>elif\<close> cascade of
  \<open>_fill_align_table\<close> (and of the match table of \<open>_fill_align_table_affine\<close>) writes it.\<close>

definition find_maximum :: "int \<Rightarrow> int \<Rightarrow> int \<Rightarrow> uint8 \<times> int" where
  "find_maximum from_diag from_left from_top =
     (if from_diag > from_left then
        (if from_diag > from_top then (1, from_diag)
         else if from_diag = from_top then (5, from_diag)
         else (4, from_top))
      else if from_diag = from_left then
        (if from_diag > from_top then (3, from_diag)
         else if from_diag = from_top then (7, from_diag)
         else (4, from_top))
      else
        (if from_left > from_top then (2, from_left)
         else if from_left = from_top then (6, from_diag)
         else (4, from_top)))"


text \<open>The candidate score of a gap step: the penalty is left out in the last row
  (respectively column) when terminal gaps are not penalised. \<open>at_end\<close> is the test
  \<open>i == i_max\<close> (respectively \<open>j == j_max\<close>).\<close>

definition gap_candidate :: "bool \<Rightarrow> bool \<Rightarrow> int \<Rightarrow> int \<Rightarrow> int" where
  "gap_candidate term_penalty at_end prev penalty =
     (if \<not> term_penalty \<and> at_end then prev else i32 (prev + penalty))"

text \<open>The three candidates of cell \<open>(i, j)\<close> of the general table.\<close>

definition from_diag ::
  "nat list \<Rightarrow> nat list \<Rightarrow> int list list \<Rightarrow> int list list \<Rightarrow> nat \<Rightarrow> nat \<Rightarrow> int" where
  "from_diag code1 code2 matrix score_table i j =
     i32 (get2 score_table (i - 1) (j - 1) + matrix_at matrix (code1 ! (i - 1)) (code2 ! (j - 1)))"

definition from_left :: "int list list \<Rightarrow> int \<Rightarrow> bool \<Rightarrow> nat \<Rightarrow> nat \<Rightarrow> int" where
  "from_left score_table gap_penalty term_penalty i j =
     gap_candidate term_penalty (int i = int (shape0 score_table) - 1)
       (get2 score_table i (j - 1)) gap_penalty"

definition from_top :: "int list list \<Rightarrow> int \<Rightarrow> bool \<Rightarrow> nat \<Rightarrow> nat \<Rightarrow> int" where
  "from_top score_table gap_penalty term_penalty i j =
     gap_candidate term_penalty (int j = int (shape1 score_table) - 1)
       (get2 score_table (i - 1) j) gap_penalty"

text \<open>The body of the inner loop of \<open>_fill_align_table\<close>. The state is the pair of the
  trace table and the score table, both updated in place by the source.\<close>

definition fill_cell ::
  "nat list \<Rightarrow> nat list \<Rightarrow> int list list \<Rightarrow> int \<Rightarrow> bool \<Rightarrow> bool \<Rightarrow> nat \<Rightarrow> nat
   \<Rightarrow> uint8 list list \<times> int list list \<Rightarrow> uint8 list list \<times> int list list" where
  "fill_cell code1 code2 matrix gap_penalty term_penalty local i j st =
     (let trace_table = fst st; score_table = snd st;
          (tr, sc) = find_maximum (from_diag code1 code2 matrix score_table i j)
                       (from_left score_table gap_penalty term_penalty i j)
                       (from_top score_table gap_penalty term_penalty i j)
      in if local \<and> sc \<le> 0 then (trace_table, set2 score_table i j 0)
         else (set2 trace_table i j tr, set2 score_table i j sc))"

definition fill_align_table ::
  "nat list \<Rightarrow> nat list \<Rightarrow> int list list \<Rightarrow> uint8 list list \<Rightarrow> int list list
   \<Rightarrow> int \<Rightarrow> bool \<Rightarrow> bool \<Rightarrow> uint8 list list \<times> int list list" where
  "fill_align_table code1 code2 matrix trace_table score_table gap_penalty term_penalty local =
     fold (\<lambda>i. fold (fill_cell code1 code2 matrix gap_penalty term_penalty local i)
                   [1..<shape1 score_table])
       [1..<shape0 score_table] (trace_table, score_table)"

section \<open>Table filling, affine gap penalty\<close>

record affine_tables =
  trace_table :: "uint8 list list"
  m_table :: "int list list"
  g1_table :: "int list list"
  g2_table :: "int list list"

text \<open>The two-way maxima of the gap tables; the bits are those of the transitions that
  attain the maximum.\<close>

definition find_gap1 :: "int \<Rightarrow> int \<Rightarrow> uint8 \<times> int" where
  "find_gap1 mg1_score g1g1_score =
     (if mg1_score > g1g1_score then (8, mg1_score)
      else if mg1_score < g1g1_score then (16, g1g1_score)
      else (24, mg1_score))"

definition find_gap2 :: "int \<Rightarrow> int \<Rightarrow> uint8 \<times> int" where
  "find_gap2 mg2_score g2g2_score =
     (if mg2_score > g2g2_score then (32, mg2_score)
      else if mg2_score < g2g2_score then (64, g2g2_score)
      else (96, g2g2_score))"

text \<open>The scores of the seven transitions into cell \<open>(i, j)\<close>.\<close>

definition similarity :: "nat list \<Rightarrow> nat list \<Rightarrow> int list list \<Rightarrow> nat \<Rightarrow> nat \<Rightarrow> int" where
  "similarity code1 code2 matrix i j = matrix_at matrix (code1 ! (i - 1)) (code2 ! (j - 1))"

definition diag_score :: "int list list \<Rightarrow> int \<Rightarrow> nat \<Rightarrow> nat \<Rightarrow> int" where
  "diag_score table sim i j = i32 (get2 table (i - 1) (j - 1) + sim)"

definition left_score :: "affine_tables \<Rightarrow> int list list \<Rightarrow> int \<Rightarrow> bool \<Rightarrow> nat \<Rightarrow> nat \<Rightarrow> int" where
  "left_score st table penalty term_penalty i j =
     gap_candidate term_penalty (int i = int (shape0 (trace_table st)) - 1)
       (get2 table i (j - 1)) penalty"

definition top_score :: "affine_tables \<Rightarrow> int list list \<Rightarrow> int \<Rightarrow> bool \<Rightarrow> nat \<Rightarrow> nat \<Rightarrow> int" where
  "top_score st table penalty term_penalty i j =
     gap_candidate term_penalty (int j = int (shape1 (trace_table st)) - 1)
       (get2 table (i - 1) j) penalty"

text \<open>The body of the inner loop of \<open>_fill_align_table_affine\<close>, in its two parts. First
  the values for cell \<open>(i, j)\<close> of the trace table and of the three score tables: the
  maxima with their trace bits and, for a local alignment, each score that is not
  positive replaced by 0 with the bits of its table removed from the trace value.\<close>

definition affine_scores ::
  "nat list \<Rightarrow> nat list \<Rightarrow> int list list \<Rightarrow> int \<Rightarrow> int \<Rightarrow> bool \<Rightarrow> bool \<Rightarrow> nat \<Rightarrow> nat
   \<Rightarrow> affine_tables \<Rightarrow> uint8 \<times> int \<times> int \<times> int" where
  "affine_scores code1 code2 matrix gap_open gap_ext term_penalty local i j st =
     (let sim = similarity code1 code2 matrix i j;
          (tr0, m_score) = find_maximum (diag_score (m_table st) sim i j)
                             (diag_score (g1_table st) sim i j)
                             (diag_score (g2_table st) sim i j);
          (b1, g1_score) = find_gap1 (left_score st (m_table st) gap_open term_penalty i j)
                             (left_score st (g1_table st) gap_ext term_penalty i j);
          (b2, g2_score) = find_gap2 (top_score st (m_table st) gap_open term_penalty i j)
                             (top_score st (g2_table st) gap_ext term_penalty i j);
          tr = tr0 OR b1 OR b2
      in if local then
           ((if g2_score \<le> 0 then (\<lambda>t. t AND NOT 96) else id)
              ((if g1_score \<le> 0 then (\<lambda>t. t AND NOT 24) else id)
                 ((if m_score \<le> 0 then (\<lambda>t. t AND NOT 7) else id) tr)),
            if m_score \<le> 0 then 0 else m_score,
            if g1_score \<le> 0 then 0 else g1_score,
            if g2_score \<le> 0 then 0 else g2_score)
         else (tr, m_score, g1_score, g2_score))"

text \<open>Then the four stores.\<close>

definition fill_cell_affine ::
  "nat list \<Rightarrow> nat list \<Rightarrow> int list list \<Rightarrow> int \<Rightarrow> int \<Rightarrow> bool \<Rightarrow> bool \<Rightarrow> nat \<Rightarrow> nat
   \<Rightarrow> affine_tables \<Rightarrow> affine_tables" where
  "fill_cell_affine code1 code2 matrix gap_open gap_ext term_penalty local i j st =
     (let (tr, m_score, g1_score, g2_score) =
            affine_scores code1 code2 matrix gap_open gap_ext term_penalty local i j st
      in \<lparr> trace_table = set2 (trace_table st) i j tr,
           m_table = set2 (m_table st) i j m_score,
           g1_table = set2 (g1_table st) i j g1_score,
           g2_table = set2 (g2_table st) i j g2_score \<rparr>)"

definition fill_align_table_affine ::
  "nat list \<Rightarrow> nat list \<Rightarrow> int list list \<Rightarrow> affine_tables
   \<Rightarrow> int \<Rightarrow> int \<Rightarrow> bool \<Rightarrow> bool \<Rightarrow> affine_tables" where
  "fill_align_table_affine code1 code2 matrix tables gap_open gap_ext term_penalty local =
     fold (\<lambda>i. fold (fill_cell_affine code1 code2 matrix gap_open gap_ext term_penalty local i)
                   [1..<shape1 (trace_table tables)])
       [1..<shape0 (trace_table tables)] tables"


section \<open>Traceback\<close>

text \<open>\<open>_follow_trace\<close> is compiled with the default directives: an index is checked
  against the bounds, and a negative index counts from the end.\<close>

definition py_index :: "nat \<Rightarrow> int \<Rightarrow> nat option" where
  "py_index n i =
     (let k = (if i < 0 then i + int n else i)
      in if 0 \<le> k \<and> k < int n then Some (nat k) else None)"

definition trace_table_at :: "uint8 list list \<Rightarrow> int \<Rightarrow> int \<Rightarrow> error + uint8" where
  "trace_table_at t i j =
     (case py_index (shape0 t) i of
        None \<Rightarrow> Inl IndexError
      | Some a \<Rightarrow> (case py_index (shape1 t) j of
                    None \<Rightarrow> Inl IndexError
                  | Some b \<Rightarrow> Inr (get2 t a b)))"

text \<open>The loop condition: state 0 (general gap penalty) stops on an empty trace value,
  the states 1 to 3 (the tables m, g1 and g2) on the empty bit group of their table.\<close>

definition trace_ends :: "nat \<Rightarrow> uint8 \<Rightarrow> bool" where
  "trace_ends state v =
     (if state = 0 then v = 0
      else (state = 1 \<and> v AND 7 = 0) \<or> (state = 2 \<and> v AND 24 = 0)
           \<or> (state = 3 \<and> v AND 96 = 0))"

text \<open>\<open>next_indices\<close> together with \<open>next_states\<close>, in the order of the appends.\<close>

definition next_steps :: "nat \<Rightarrow> uint8 \<Rightarrow> int \<Rightarrow> int \<Rightarrow> (int \<times> int \<times> nat) list" where
  "next_steps state v i j =
     (if state = 0 then
        (if v AND 1 \<noteq> 0 then [(i - 1, j - 1, 0)] else [])
        @ (if v AND 2 \<noteq> 0 then [(i, j - 1, 0)] else [])
        @ (if v AND 4 \<noteq> 0 then [(i - 1, j, 0)] else [])
      else
        (let trace_value = (if state = 1 then v AND 7
                            else if state = 2 then v AND 24 else v AND 96)
         in (if trace_value AND 1 \<noteq> 0 then [(i - 1, j - 1, 1)] else [])
            @ (if trace_value AND 2 \<noteq> 0 then [(i - 1, j - 1, 2)] else [])
            @ (if trace_value AND 4 \<noteq> 0 then [(i - 1, j - 1, 3)] else [])
            @ (if trace_value AND 8 \<noteq> 0 then [(i, j - 1, 1)] else [])
            @ (if trace_value AND 16 \<noteq> 0 then [(i, j - 1, 2)] else [])
            @ (if trace_value AND 32 \<noteq> 0 then [(i - 1, j, 1)] else [])
            @ (if trace_value AND 64 \<noteq> 0 then [(i - 1, j, 3)] else [])))"

text \<open>Trimming: the rows that are \<open>-1\<close> in both columns are deleted.\<close>

definition trim :: "(int \<times> int) list \<Rightarrow> (int \<times> int) list" where
  "trim tr = filter (\<lambda>r. fst r \<noteq> - 1 \<or> snd r \<noteq> - 1) tr"

text \<open>
  \<open>_follow_trace\<close>. The result is the list of the traces appended to \<open>trace_list\<close>, in
  the order of the appends: the traces of the recursive calls for the steps after the
  first one (\<open>follow_branches\<close>, each on its own copy of the trace array), then those of
  the walk that continues with the first step. An exception leaves no result at all.
  The trace array has a fixed number of rows, and a write behind its end is an
  \<open>IndexError\<close>.
\<close>

function follow_trace ::
    "uint8 list list \<Rightarrow> int \<Rightarrow> int \<Rightarrow> nat \<Rightarrow> (int \<times> int) list \<Rightarrow> nat
     \<Rightarrow> error + (int \<times> int) list list"
  and follow_branches ::
    "uint8 list list \<Rightarrow> (int \<times> int \<times> nat) list \<Rightarrow> nat \<Rightarrow> (int \<times> int) list
     \<Rightarrow> error + (int \<times> int) list list"
where
  "follow_trace tt i j pos tr state =
     (case trace_table_at tt i j of
        Inl e \<Rightarrow> Inl e
      | Inr v \<Rightarrow>
          if trace_ends state v then Inr [trim tr]
          else if length tr \<le> pos then Inl IndexError
          else (case follow_branches tt (tl (next_steps state v i j)) (Suc pos)
                       (tr[pos := (i - 1, j - 1)]) of
                  Inl e \<Rightarrow> Inl e
                | Inr branches \<Rightarrow>
                    (case next_steps state v i j of
                       [] \<Rightarrow> Inl IndexError
                     | nxt # _ \<Rightarrow>
                         (case follow_trace tt (fst nxt) (fst (snd nxt)) (Suc pos)
                                 (tr[pos := (i - 1, j - 1)]) (snd (snd nxt)) of
                            Inl e \<Rightarrow> Inl e
                          | Inr main \<Rightarrow> Inr (branches @ main)))))"
| "follow_branches tt [] pos tr = Inr []"
| "follow_branches tt (nxt # rest) pos tr =
     (case follow_trace tt (fst nxt) (fst (snd nxt)) pos tr (snd (snd nxt)) of
        Inl e \<Rightarrow> Inl e
      | Inr ts \<Rightarrow>
          (case follow_branches tt rest pos tr of
             Inl e \<Rightarrow> Inl e
           | Inr ts' \<Rightarrow> Inr (ts @ ts')))"
  by pat_completeness auto
termination
  by (relation "inv_image (less_than <*lex*> less_than)
        (\<lambda>x. case x of
           Inl (tt, i, j, pos, tr, state) \<Rightarrow> (length tr - pos, 0)
         | Inr (tt, nxts, pos, tr) \<Rightarrow> (length tr - pos, Suc (length nxts)))")
     auto

declare follow_trace.simps [simp del]


section \<open>Optimal alignment\<close>

text \<open>Modelled from the spec: \<open>Alphabet.extends\<close> is defined outside the sources at
  hand. The alphabets of the score model must extend those of the sequences: the
  symbols of the extended alphabet are the first symbols of the extending one, so that
  the codes of the sequence keep their meaning.\<close>

definition extends :: "alphabet \<Rightarrow> alphabet \<Rightarrow> bool" where
  "extends a b \<longleftrightarrow> take (length b) a = b"

text \<open>Slice assignments of numpy: \<open>t[i, j0:] = f\<close> and \<open>t[i0:, j] = f\<close>, where \<open>f k\<close> is
  the \<open>k\<close>-th element of the right-hand side (a constant function for a scalar).\<close>

definition assign_row :: "'a list list \<Rightarrow> nat \<Rightarrow> nat \<Rightarrow> (nat \<Rightarrow> 'a) \<Rightarrow> 'a list list" where
  "assign_row t i j0 f =
     t[i := map (\<lambda>j. if j0 \<le> j then f (j - j0) else t ! i ! j) [0..<length (t ! i)]]"

definition assign_col :: "'a list list \<Rightarrow> nat \<Rightarrow> nat \<Rightarrow> (nat \<Rightarrow> 'a) \<Rightarrow> 'a list list" where
  "assign_col t j i0 f =
     map (\<lambda>i. if i0 \<le> i then (t ! i)[j := f (i - i0)] else t ! i) [0..<length t]"

text \<open>\<open>np.min\<close> and \<open>np.max\<close> over the elements of an array that has some.\<close>

definition np_min :: "int list \<Rightarrow> int" where
  "np_min xs = fold min xs (hd xs)"

definition np_max :: "int list \<Rightarrow> int" where
  "np_max xs = fold max xs (hd xs)"

text \<open>\<open>np.where(t == v)\<close>: the positions in row-major order.\<close>

definition np_where :: "int list list \<Rightarrow> int \<Rightarrow> (nat \<times> nat) list" where
  "np_where t v =
     concat (map (\<lambda>i. map (\<lambda>j. (i, j)) (filter (\<lambda>j. get2 t i j = v) [0..<length (t ! i)]))
               [0..<length t])"

text \<open>The value for negative infinity, a Python integer.\<close>

definition neg_inf :: "int \<Rightarrow> int \<Rightarrow> int \<Rightarrow> int" where
  "neg_inf gap_open gap_ext min_score =
     (let n = INT32_MIN - 2 * gap_open - 2 * gap_ext
      in if min_score < 0 then n - min_score else n)"

text \<open>The tables before the filling, general gap penalty. A value stored into an
  \<open>int32\<close> array is cut to 32 bits.\<close>

definition init_general ::
  "nat \<Rightarrow> nat \<Rightarrow> int \<Rightarrow> bool \<Rightarrow> bool \<Rightarrow> uint8 list list \<times> int list list" where
  "init_general n m gap_penalty terminal_penalty local =
     (let trace_table = zeros (n + 1) (m + 1);
          score_table = zeros (n + 1) (m + 1)
      in if \<not> local then
           (assign_row (assign_col trace_table 0 1 (\<lambda>_. 4)) 0 1 (\<lambda>_. 2),
            if terminal_penalty then
              assign_row (assign_col score_table 0 0 (\<lambda>k. i32 (int k * gap_penalty)))
                0 0 (\<lambda>k. i32 (int k * gap_penalty))
            else score_table)
         else (trace_table, score_table))"

text \<open>The tables before the filling, affine gap penalty.\<close>

definition init_affine ::
  "nat \<Rightarrow> nat \<Rightarrow> int \<Rightarrow> int \<Rightarrow> int \<Rightarrow> bool \<Rightarrow> bool \<Rightarrow> affine_tables" where
  "init_affine n m gap_open gap_ext ninf terminal_penalty local =
     (let tt = zeros (n + 1) (m + 1);
          mt = assign_col (assign_row (zeros (n + 1) (m + 1)) 0 1 (\<lambda>_. i32 ninf))
                 0 1 (\<lambda>_. i32 ninf);
          g1 = assign_col (zeros (n + 1) (m + 1)) 0 0 (\<lambda>_. i32 ninf);
          g2 = assign_row (zeros (n + 1) (m + 1)) 0 0 (\<lambda>_. i32 ninf)
      in if \<not> local then
           \<lparr> trace_table = assign_row (assign_col tt 0 1 (\<lambda>_. 64)) 0 1 (\<lambda>_. 16),
             m_table = mt,
             g1_table = (if terminal_penalty
                         then assign_row g1 0 1 (\<lambda>k. i32 (int k * gap_ext + gap_open)) else g1),
             g2_table = (if terminal_penalty
                         then assign_col g2 0 1 (\<lambda>k. i32 (int k * gap_ext + gap_open)) else g2) \<rparr>
         else \<lparr> trace_table = tt, m_table = mt, g1_table = g1, g2_table = g2 \<rparr>)"

text \<open>The start cells of the traceback with their states, and the score of the
  alignments.\<close>

definition starts_general ::
  "uint8 list list \<Rightarrow> int list list \<Rightarrow> bool \<Rightarrow> int \<times> (nat \<times> nat \<times> nat) list" where
  "starts_general tt score_table local =
     (if local then
        (let max_score = np_max (concat score_table)
         in (max_score, map (\<lambda>(i, j). (i, j, 0)) (np_where score_table max_score)))
      else
        (let i_start = shape0 tt - 1; j_start = shape1 tt - 1
         in (get2 score_table i_start j_start, [(i_start, j_start, 0)])))"

definition starts_affine :: "affine_tables \<Rightarrow> bool \<Rightarrow> int \<times> (nat \<times> nat \<times> nat) list" where
  "starts_affine st local =
     (if local then
        (let max_score = np_max (concat (m_table st) @ concat (g1_table st) @ concat (g2_table st))
         in (max_score,
             map (\<lambda>(i, j). (i, j, 1)) (np_where (m_table st) max_score)
             @ map (\<lambda>(i, j). (i, j, 2)) (np_where (g1_table st) max_score)
             @ map (\<lambda>(i, j). (i, j, 3)) (np_where (g2_table st) max_score)))
      else
        (let i_start = shape0 (trace_table st) - 1; j_start = shape1 (trace_table st) - 1;
             max_score = max (max (get2 (m_table st) i_start j_start)
                                  (get2 (g1_table st) i_start j_start))
                             (get2 (g2_table st) i_start j_start)
         in (max_score,
             (if get2 (m_table st) i_start j_start = max_score then [(i_start, j_start, 1)] else [])
             @ (if get2 (g1_table st) i_start j_start = max_score then [(i_start, j_start, 2)] else [])
             @ (if get2 (g2_table st) i_start j_start = max_score then [(i_start, j_start, 3)] else []))))"

text \<open>The loop over the start cells: each walk starts on a fresh trace array of
  \<open>i_start + 1 + j_start + 1\<close> rows filled with \<open>-1\<close>.\<close>

fun follow_all ::
  "uint8 list list \<Rightarrow> (nat \<times> nat \<times> nat) list \<Rightarrow> error + (int \<times> int) list list" where
  "follow_all tt [] = Inr []"
| "follow_all tt ((i_start, j_start, state_start) # rest) =
     (case follow_trace tt (int i_start) (int j_start) 0
             (replicate (i_start + 1 + j_start + 1) (- 1, - 1)) state_start of
        Inl e \<Rightarrow> Inl e
      | Inr ts \<Rightarrow> (case follow_all tt rest of Inl e \<Rightarrow> Inl e | Inr ts' \<Rightarrow> Inr (ts @ ts')))"

text \<open>The indices that \<open>np.unique(xs, return_index=True)\<close> returns: those of the first
  occurrence of each value.\<close>

definition unique_index :: "int list \<Rightarrow> nat list" where
  "unique_index xs = filter (\<lambda>k. xs ! k \<notin> set (take k xs)) [0..<length xs]"

text \<open>The last loop of \<open>align_optimal\<close>: the trace is flipped, and every entry that is
  not the first occurrence of its value in its column becomes \<open>-1\<close>.\<close>

definition replace_gaps :: "(int \<times> int) list \<Rightarrow> (int \<times> int) list" where
  "replace_gaps tr0 =
     (let tr = rev tr0;
          u0 = unique_index (map fst tr);
          u1 = unique_index (map snd tr)
      in map (\<lambda>k. (if k \<in> set u0 then fst (tr ! k) else - 1,
                   if k \<in> set u1 then snd (tr ! k) else - 1)) [0..<length tr])"

text \<open>\<open>align_optimal\<close>. The two alphabet tests are those of the \<open>or\<close>, in its order.
  The fillers take the penalties as C \<open>int\<close>: the call raises \<open>OverflowError\<close> for a
  Python integer that does not fit.\<close>

definition fits_c_int :: "int \<Rightarrow> bool" where
  "fits_c_int x \<longleftrightarrow> INT32_MIN \<le> x \<and> x \<le> INT32_MAX"

text \<open>The section \<open>Table filling\<close> of \<open>align_optimal\<close>: the tables are set up and
  handed to the filler.\<close>

definition general_tables ::
  "sequence \<Rightarrow> sequence \<Rightarrow> substitution_matrix \<Rightarrow> int \<Rightarrow> bool \<Rightarrow> bool
   \<Rightarrow> uint8 list list \<times> int list list" where
  "general_tables seq1 seq2 matrix g terminal_penalty local =
     (let init = init_general (length (code seq1)) (length (code seq2)) g terminal_penalty local
      in fill_align_table (code seq1) (code seq2) (score_matrix matrix) (fst init) (snd init)
           g terminal_penalty local)"

definition affine_tables ::
  "sequence \<Rightarrow> sequence \<Rightarrow> substitution_matrix \<Rightarrow> int \<Rightarrow> int \<Rightarrow> bool \<Rightarrow> bool
   \<Rightarrow> affine_tables" where
  "affine_tables seq1 seq2 matrix gap_open gap_ext terminal_penalty local =
     (let ninf = neg_inf gap_open gap_ext (np_min (concat (score_matrix matrix)))
      in fill_align_table_affine (code seq1) (code seq2) (score_matrix matrix)
           (init_affine (length (code seq1)) (length (code seq2)) gap_open gap_ext ninf
              terminal_penalty local)
           gap_open gap_ext terminal_penalty local)"

text \<open>The section \<open>Traceback\<close> and the return of \<open>align_optimal\<close>: the traces from all
  start cells, each with its gaps replaced, and the score of the start cells.\<close>

definition traceback ::
  "sequence \<Rightarrow> sequence \<Rightarrow> uint8 list list \<Rightarrow> int \<times> (nat \<times> nat \<times> nat) list
   \<Rightarrow> error + alignment list" where
  "traceback seq1 seq2 tt start =
     (case follow_all tt (snd start) of
        Inl e \<Rightarrow> Inl e
      | Inr trace_list \<Rightarrow>
          Inr (map (\<lambda>tr. \<lparr> sequences = (seq1, seq2), trace = replace_gaps tr,
                           score = fst start \<rparr>) trace_list))"

definition align_optimal ::
  "sequence \<Rightarrow> sequence \<Rightarrow> substitution_matrix \<Rightarrow> gap_arg \<Rightarrow> bool \<Rightarrow> bool
   \<Rightarrow> error + alignment list" where
  "align_optimal seq1 seq2 matrix gap_penalty terminal_penalty local =
     (if \<not> extends (get_alphabet1 matrix) (get_alphabet seq1) then Inl AlphabetMismatch
      else if \<not> extends (get_alphabet2 matrix) (get_alphabet seq2) then Inl AlphabetMismatch
      else
        (case gap_penalty of
           GapOther \<Rightarrow> Inl InvalidGapPenalty
         | GapTuple ps \<Rightarrow>
             (if length ps < 2 then Inl IndexError
              else if concat (score_matrix matrix) = [] then Inl EmptyReduction
              else if \<not> fits_c_int (ps ! 0) then Inl OverflowError
              else if \<not> fits_c_int (ps ! 1) then Inl OverflowError
              else
                (let st = affine_tables seq1 seq2 matrix (ps ! 0) (ps ! 1) terminal_penalty local
                 in traceback seq1 seq2 (trace_table st) (starts_affine st local)))
         | GapInt g \<Rightarrow>
             (if \<not> fits_c_int g then Inl OverflowError
              else
                (let tabs = general_tables seq1 seq2 matrix g terminal_penalty local
                 in traceback seq1 seq2 (fst tabs) (starts_general (fst tabs) (snd tabs) local)))))"

text \<open>A result that is a value or the exception \<open>IndexError\<close>.\<close>

definition only_index_error :: "error + 'a \<Rightarrow> bool" where
  "only_index_error r = (case r of Inl e \<Rightarrow> e = IndexError | Inr _ \<Rightarrow> True)"

text \<open>A table of \<open>R\<close> rows and \<open>C\<close> columns.\<close>

definition rect :: "nat \<Rightarrow> nat \<Rightarrow> 'a list list \<Rightarrow> bool" where
  "rect R C t \<longleftrightarrow> length t = R \<and> (\<forall>row \<in> set t. length row = C)"

text \<open>What the general filler leaves in an interior cell \<open>(i, j)\<close>, in terms of the
  neighbours in the filled score table: the result of \<open>find_maximum\<close> on the three
  candidates, or the score 0 and the trace value from before the filling (\<open>tt0\<close>) when
  a local alignment ends there.\<close>

definition general_cell ::
  "nat list \<Rightarrow> nat list \<Rightarrow> int list list \<Rightarrow> int \<Rightarrow> bool \<Rightarrow> bool \<Rightarrow> uint8 list list
   \<Rightarrow> nat \<Rightarrow> nat \<Rightarrow> uint8 list list \<times> int list list \<Rightarrow> bool" where
  "general_cell code1 code2 matrix gap_penalty term_penalty local tt0 i j st =
     (let r = find_maximum (from_diag code1 code2 matrix (snd st) i j)
                (from_left (snd st) gap_penalty term_penalty i j)
                (from_top (snd st) gap_penalty term_penalty i j)
      in if local \<and> snd r \<le> 0
         then get2 (snd st) i j = 0 \<and> get2 (fst st) i j = get2 tt0 i j
         else get2 (snd st) i j = snd r \<and> get2 (fst st) i j = fst r)"

text \<open>The four values of cell \<open>(i, j)\<close> of the affine tables.\<close>

definition affine_at :: "affine_tables \<Rightarrow> nat \<Rightarrow> nat \<Rightarrow> uint8 \<times> int \<times> int \<times> int" where
  "affine_at st i j =
     (get2 (trace_table st) i j, get2 (m_table st) i j, get2 (g1_table st) i j,
      get2 (g2_table st) i j)"

text \<open>The invariants of the two filling loops: the tables keep their shape, and the
  first row and the first column keep the values from before the filling.\<close>

definition general_inv ::
  "nat \<Rightarrow> nat \<Rightarrow> uint8 list list \<Rightarrow> int list list \<Rightarrow> uint8 list list \<times> int list list \<Rightarrow> bool" where
  "general_inv R C tt0 st0 s \<longleftrightarrow>
     rect R C (fst s) \<and> rect R C (snd s)
     \<and> (\<forall>a b. a = 0 \<or> b = 0 \<longrightarrow> get2 (fst s) a b = get2 tt0 a b \<and> get2 (snd s) a b = get2 st0 a b)"

definition affine_inv :: "nat \<Rightarrow> nat \<Rightarrow> affine_tables \<Rightarrow> affine_tables \<Rightarrow> bool" where
  "affine_inv R C st0 s \<longleftrightarrow>
     rect R C (trace_table s) \<and> rect R C (m_table s) \<and> rect R C (g1_table s) \<and> rect R C (g2_table s)
     \<and> (\<forall>a b. a = 0 \<or> b = 0 \<longrightarrow> affine_at s a b = affine_at st0 a b)"

text \<open>Modelled from the spec: the re-scoring of a trace (\<open>score\<close> of the alignment
  module) is outside the sources at hand. With a general gap penalty every row of the
  trace with a gap costs the penalty, every other row scores the matrix entry of its
  two symbols.\<close>

definition trace_score :: "nat list \<Rightarrow> nat list \<Rightarrow> int list list \<Rightarrow> int \<Rightarrow> (int \<times> int) list \<Rightarrow> int" where
  "trace_score code1 code2 matrix gap_penalty tr =
     (\<Sum>r\<leftarrow>tr. if fst r = - 1 \<or> snd r = - 1 then gap_penalty
              else matrix_at matrix (code1 ! nat (fst r)) (code2 ! nat (snd r)))"

text \<open>Validity of a trace, read forward. In each column the entries that are no gap
  go up by exactly one from one to the next, so an index of a sequence is met at most
  once and never decreases; and no row is a gap in both columns, so every step of the
  trace advances in at least one sequence.\<close>

definition non_gaps :: "int list \<Rightarrow> int list" where
  "non_gaps xs = filter (\<lambda>x. x \<noteq> - 1) xs"

fun consecutive :: "int list \<Rightarrow> bool" where
  "consecutive [] = True"
| "consecutive [x] = True"
| "consecutive (x # y # ys) = (y = x + 1 \<and> consecutive (y # ys))"

definition valid_trace :: "(int \<times> int) list \<Rightarrow> bool" where
  "valid_trace tr \<longleftrightarrow>
     consecutive (non_gaps (map fst tr)) \<and> consecutive (non_gaps (map snd tr))
     \<and> (\<forall>r \<in> set tr. fst r \<noteq> - 1 \<or> snd r \<noteq> - 1)"

text \<open>The cells a walk of \<open>_follow_trace\<close> records, from the start cell backwards: each
  is a cell of the table other than the corner \<open>(0, 0)\<close>, and the next one lies one
  step to the left, to the top or both.\<close>

definition cell_ok :: "int \<times> int \<Rightarrow> bool" where
  "cell_ok c \<longleftrightarrow> 0 \<le> fst c \<and> 0 \<le> snd c \<and> c \<noteq> (0, 0)"

definition cell_step :: "int \<times> int \<Rightarrow> int \<times> int \<Rightarrow> bool" where
  "cell_step c d \<longleftrightarrow>
     d = (fst c - 1, snd c - 1) \<or> d = (fst c, snd c - 1) \<or> d = (fst c - 1, snd c)"

fun walk :: "(int \<times> int) list \<Rightarrow> bool" where
  "walk [] = True"
| "walk [c] = cell_ok c"
| "walk (c # d # cs) = (cell_ok c \<and> cell_step c d \<and> walk (d # cs))"

text \<open>The row recorded for a cell, and the trace array after the rows \<open>xs\<close> have been
  written from position \<open>pos\<close> on.\<close>

definition dec :: "int \<times> int \<Rightarrow> int \<times> int" where
  "dec c = (fst c - 1, snd c - 1)"

definition written :: "'a list \<Rightarrow> nat \<Rightarrow> 'a list \<Rightarrow> 'a list" where
  "written tr pos xs = take pos tr @ xs @ drop (pos + length xs) tr"

definition emitted :: "(int \<times> int) list \<Rightarrow> nat \<Rightarrow> int \<times> int \<Rightarrow> (int \<times> int) list \<Rightarrow> bool" where
  "emitted tr pos c t \<longleftrightarrow>
     (\<exists>cells. walk cells \<and> (cells \<noteq> [] \<longrightarrow> hd cells = c)
        \<and> t = trim (written tr pos (map dec cells)))"

text \<open>A trace table on which the walks stay inside: in the states \<open>S\<close>, a cell where
  the walk does not end is not the corner, and its steps lead to cells with indices
  that are not negative, in states of \<open>S\<close> again.\<close>

definition safe_table :: "uint8 list list \<Rightarrow> nat \<Rightarrow> nat \<Rightarrow> nat set \<Rightarrow> bool" where
  "safe_table tt R C S \<longleftrightarrow>
     (\<forall>a b s. a < R \<longrightarrow> b < C \<longrightarrow> s \<in> S \<longrightarrow> \<not> trace_ends s (get2 tt a b) \<longrightarrow>
        (a \<noteq> 0 \<or> b \<noteq> 0)
        \<and> (\<forall>n \<in> set (next_steps s (get2 tt a b) (int a) (int b)).
              0 \<le> fst n \<and> 0 \<le> fst (snd n) \<and> snd (snd n) \<in> S))"

text \<open>A column of the final trace, computed from left to right: an entry equal to its
  predecessor becomes a gap.\<close>

fun mark :: "int \<Rightarrow> int list \<Rightarrow> int list" where
  "mark p [] = []"
| "mark p (x # xs) = (if x = p then - 1 else x) # mark x xs"

text \<open>A column of the flipped trace goes up by 0 or 1 from row to row; \<open>firsts\<close> is the
  column after the replacement of the gaps.\<close>

definition steps01 :: "int list \<Rightarrow> bool" where
  "steps01 xs \<longleftrightarrow> (\<forall>k. Suc k < length xs \<longrightarrow> xs ! Suc k = xs ! k \<or> xs ! Suc k = xs ! k + 1)"

definition firsts :: "int list \<Rightarrow> int list" where
  "firsts xs = map (\<lambda>k. if k \<in> set (unique_index xs) then xs ! k else - 1) [0..<length xs]"

subsection \<open>Equal gap penalties\<close>

text \<open>The conditions under which the two fillers are compared: at every interior cell of
  the tables they build (with terminal penalty) the sums of the candidates lie in the
  \<open>int32\<close> range, and the branch for \<open>from_left = from_top > from_diag\<close> (trace value \<open>6\<close>)
  is not taken.\<close>

definition exact_general :: "sequence \<Rightarrow> sequence \<Rightarrow> substitution_matrix \<Rightarrow> int \<Rightarrow> bool \<Rightarrow> bool" where
  "exact_general seq1 seq2 matrix g local =
     (let S = snd (general_tables seq1 seq2 matrix g True local)
      in list_all (\<lambda>i. list_all (\<lambda>j.
           let d = get2 S (i - 1) (j - 1) + similarity (code seq1) (code seq2) (score_matrix matrix) i j;
               l = get2 S i (j - 1) + g;
               t = get2 S (i - 1) j + g
           in in_i32 d \<and> in_i32 l \<and> in_i32 t \<and> \<not> (d < l \<and> l = t))
         [1..<Suc (length (code seq2))]) [1..<Suc (length (code seq1))])"

definition exact_affine :: "sequence \<Rightarrow> sequence \<Rightarrow> substitution_matrix \<Rightarrow> int \<Rightarrow> bool \<Rightarrow> bool" where
  "exact_affine seq1 seq2 matrix g local =
     (let st = affine_tables seq1 seq2 matrix g g True local
      in list_all (\<lambda>i. list_all (\<lambda>j.
           let sim = similarity (code seq1) (code seq2) (score_matrix matrix) i j;
               mm = get2 (m_table st) (i - 1) (j - 1) + sim;
               g1m = get2 (g1_table st) (i - 1) (j - 1) + sim;
               g2m = get2 (g2_table st) (i - 1) (j - 1) + sim
           in in_i32 mm \<and> in_i32 g1m \<and> in_i32 g2m
              \<and> in_i32 (get2 (m_table st) i (j - 1) + g) \<and> in_i32 (get2 (g1_table st) i (j - 1) + g)
              \<and> in_i32 (get2 (m_table st) (i - 1) j + g) \<and> in_i32 (get2 (g2_table st) (i - 1) j + g)
              \<and> \<not> (mm < g1m \<and> g1m = g2m))
         [1..<Suc (length (code seq2))]) [1..<Suc (length (code seq1))])"

definition sentinel_low :: "sequence \<Rightarrow> sequence \<Rightarrow> substitution_matrix \<Rightarrow> int \<Rightarrow> bool" where
  "sentinel_low seq1 seq2 matrix g =
     (let ninf = neg_inf g g (np_min (concat (score_matrix matrix)))
      in ninf \<le> int (length (code seq1)) * g \<and> ninf \<le> int (length (code seq2)) * g)"

text \<open>The clamp of the local mode: a score that is not positive becomes \<open>0\<close>.\<close>

definition clampL :: "bool \<Rightarrow> int \<Rightarrow> int" where
  "clampL loc x = (if loc \<and> x \<le> 0 then 0 else x)"


section \<open>Properties\<close>

subsection \<open>Arithmetic on 32 bits\<close>


lemma i32_id: "in_i32 x \<Longrightarrow> i32 x = x"
  unfolding i32_def in_i32_def INT32_MIN_def INT32_MAX_def
  by (simp add: signed_take_bit_int_eq_self)


subsection \<open>Ungapped alignment\<close>






text \<open>
  Claim C3. \<open>align_ungapped\<close> should fail with \<open>AlphabetMismatch\<close> as soon as one of the
  two alphabets does not fit the matrix. Here the first alphabet fits and the second
  does not: \<open>align_ungapped\<close> returns a score, where \<open>align_optimal\<close> on the same
  sequences and matrix raises the error.
\<close>

theorem align_ungapped_one_alphabet_fits:
  "align_ungapped \<lparr> get_alphabet = ''ACGT'', code = [0] \<rparr> \<lparr> get_alphabet = ''ACGU'', code = [0] \<rparr>
     \<lparr> get_alphabet1 = ''ACGT'', get_alphabet2 = ''ACGT'', score_matrix = [[5]] \<rparr> True
   = Inr (Score 5)
   \<and> align_optimal \<lparr> get_alphabet = ''ACGT'', code = [0] \<rparr> \<lparr> get_alphabet = ''ACGU'', code = [0] \<rparr>
     \<lparr> get_alphabet1 = ''ACGT'', get_alphabet2 = ''ACGT'', score_matrix = [[5]] \<rparr>
     (GapInt (- 1)) True False
   = Inl AlphabetMismatch"
  by code_simp

subsection \<open>The maximum of the three candidates\<close>

text \<open>
  Claim C1. The score stored in an interior cell should be the maximum of its three
  candidates. When the left and the top candidate are equal and larger than the
  diagonal one, the filler stores the diagonal candidate. General table: sequences
  \<open>[0]\<close> and \<open>[0]\<close>, matrix \<open>[[-5]]\<close>, penalty \<open>-1\<close>, global with terminal penalty; the
  candidates of cell \<open>(1, 1)\<close> are \<open>-5\<close>, \<open>-2\<close> and \<open>-2\<close>, the cell holds \<open>-5\<close>. Match
  table of the affine filler: sequences \<open>[0, 0, 0]\<close> and \<open>[0, 0, 0]\<close>, matrix \<open>[[-3]]\<close>,
  penalty \<open>(-1, -1)\<close>; the transitions into cell \<open>(3, 3)\<close> score \<open>-9\<close>, \<open>-8\<close> and \<open>-8\<close>,
  the cell holds \<open>-9\<close>.
\<close>

theorem fill_align_table_tie_stores_diag:
  "get2 (snd (fill_align_table [0] [0] [[- 5]] (fst (init_general 1 1 (- 1) True False))
             (snd (init_general 1 1 (- 1) True False)) (- 1) True False)) 1 1 = - 5
   \<and> from_diag [0] [0] [[- 5]] (snd (init_general 1 1 (- 1) True False)) 1 1 = - 5
   \<and> from_left (snd (init_general 1 1 (- 1) True False)) (- 1) True 1 1 = - 2
   \<and> from_top (snd (init_general 1 1 (- 1) True False)) (- 1) True 1 1 = - 2
   \<and> get2 (m_table (fill_align_table_affine [0, 0, 0] [0, 0, 0] [[- 3]]
             (init_affine 3 3 (- 1) (- 1) (neg_inf (- 1) (- 1) (- 3)) True False)
             (- 1) (- 1) True False)) 3 3 = - 9
   \<and> diag_score (m_table (fill_align_table_affine [0, 0, 0] [0, 0, 0] [[- 3]]
             (init_affine 3 3 (- 1) (- 1) (neg_inf (- 1) (- 1) (- 3)) True False)
             (- 1) (- 1) True False)) (- 3) 3 3 = - 9
   \<and> diag_score (g1_table (fill_align_table_affine [0, 0, 0] [0, 0, 0] [[- 3]]
             (init_affine 3 3 (- 1) (- 1) (neg_inf (- 1) (- 1) (- 3)) True False)
             (- 1) (- 1) True False)) (- 3) 3 3 = - 8
   \<and> diag_score (g2_table (fill_align_table_affine [0, 0, 0] [0, 0, 0] [[- 3]]
             (init_affine 3 3 (- 1) (- 1) (neg_inf (- 1) (- 1) (- 3)) True False)
             (- 1) (- 1) True False)) (- 3) 3 3 = - 8"
  by code_simp


subsection \<open>Validation of the gap penalty\<close>

lemma trace_table_at_error: "trace_table_at tt i j = Inl e \<Longrightarrow> e = IndexError"
  by (auto simp: trace_table_at_def split: option.splits)

lemma follow_only_index_error:
  "only_index_error (follow_trace tt i j pos tr state)"
  "only_index_error (follow_branches tt nxts pos tr)"
proof (induction tt i j pos tr state and tt nxts pos tr rule: follow_trace_follow_branches.induct)
  case (1 tt i j pos tr state)
  show ?case
  proof (cases "trace_table_at tt i j")
    case (Inl e)
    then show ?thesis
      by (subst follow_trace.simps) (simp add: only_index_error_def trace_table_at_error)
  next
    case (Inr v)
    show ?thesis
    proof (cases "trace_ends state v \<or> length tr \<le> pos")
      case True
      then show ?thesis
        using Inr by (subst follow_trace.simps) (auto simp: only_index_error_def)
    next
      case False
      then have ne: "\<not> trace_ends state v" and len: "\<not> length tr \<le> pos" by auto
      have b: "only_index_error (follow_branches tt (tl (next_steps state v i j)) (Suc pos)
                 (tr[pos := (i - 1, j - 1)]))"
        using "1.IH"(1) [OF Inr ne len] .
      show ?thesis
      proof (cases "follow_branches tt (tl (next_steps state v i j)) (Suc pos)
                 (tr[pos := (i - 1, j - 1)])")
        case (Inl e)
        with b show ?thesis
          by (subst follow_trace.simps) (simp add: Inr ne len only_index_error_def)
      next
        case br: (Inr branches)
        show ?thesis
        proof (cases "next_steps state v i j")
          case Nil
          then show ?thesis
            using br by (subst follow_trace.simps) (simp add: Inr ne len only_index_error_def)
        next
          case (Cons nxt rest)
          have "only_index_error (follow_trace tt (fst nxt) (fst (snd nxt)) (Suc pos)
                  (tr[pos := (i - 1, j - 1)]) (snd (snd nxt)))"
            using "1.IH"(2) [OF Inr ne len br Cons] .
          then show ?thesis
            using br Cons
            by (subst follow_trace.simps)
               (auto simp add: Inr ne len only_index_error_def split: sum.splits)
        qed
      qed
    qed
  qed
next
  case (2 tt pos tr)
  show ?case by (simp add: only_index_error_def)
next
  case (3 tt nxt rest pos tr)
  then show ?case
    by (auto simp: only_index_error_def split: sum.splits)
qed

lemma follow_all_only_index_error: "only_index_error (follow_all tt starts)"
proof (induction tt starts rule: follow_all.induct)
  case (1 tt)
  show ?case by (simp add: only_index_error_def)
next
  case (2 tt i j s rest)
  then show ?case
    using follow_only_index_error(1) [of tt "int i" "int j" 0 "replicate (i + 1 + j + 1) (- 1, - 1)" s]
    by (auto simp: only_index_error_def split: sum.splits)
qed

lemma traceback_error: "traceback seq1 seq2 tt start = Inl e \<Longrightarrow> e = IndexError"
  using follow_all_only_index_error [of tt "snd start"]
  by (auto simp: traceback_def only_index_error_def split: sum.splits)

text \<open>
  Claim C2, as the code has it. \<open>align_optimal\<close> fails with \<open>InvalidGapPenalty\<close> exactly
  when the alphabets fit and the gap penalty is neither an integer nor a tuple. The
  values of the penalty play no part in it: their sign is not tested.
\<close>

theorem align_optimal_invalid_gap_penalty:
  "align_optimal seq1 seq2 matrix gap_penalty terminal_penalty local = Inl InvalidGapPenalty
   \<longleftrightarrow> extends (get_alphabet1 matrix) (get_alphabet seq1)
       \<and> extends (get_alphabet2 matrix) (get_alphabet seq2)
       \<and> gap_penalty = GapOther"
proof (cases gap_penalty)
  case (GapInt g)
  show ?thesis
    unfolding GapInt align_optimal_def
    by (auto simp: Let_def dest: traceback_error)
next
  case (GapTuple ps)
  show ?thesis
    unfolding GapTuple align_optimal_def
    by (auto simp: Let_def dest: traceback_error)
next
  case GapOther
  show ?thesis
    unfolding GapOther align_optimal_def
    by (simp add: Let_def)
qed

text \<open>A positive penalty is accepted: the claim C2 as stated fails.\<close>

theorem align_optimal_positive_penalty:
  "align_optimal \<lparr> get_alphabet = ''A'', code = [0] \<rparr> \<lparr> get_alphabet = ''A'', code = [0] \<rparr>
     \<lparr> get_alphabet1 = ''A'', get_alphabet2 = ''A'', score_matrix = [[5]] \<rparr> (GapInt 1) True False
   = Inr [\<lparr> sequences = (\<lparr> get_alphabet = ''A'', code = [0] \<rparr>, \<lparr> get_alphabet = ''A'', code = [0] \<rparr>),
           trace = [(0, 0)], score = 5 \<rparr>]"
  by code_simp

subsection \<open>The value for negative infinity\<close>







subsection \<open>The filling loops\<close>

text \<open>A loop over the interior cells in row-major order, in general: \<open>I\<close> is an
  invariant of the state, \<open>U a b\<close> holds as long as cell \<open>(a, b)\<close> has not been visited,
  and \<open>P a b\<close> is established by the visit of \<open>(a, b)\<close> and kept by the later visits.\<close>

lemma fold_cells_inner:
  fixes step :: "nat \<Rightarrow> nat \<Rightarrow> 's \<Rightarrow> 's"
  assumes inv: "\<And>a b s. I s \<Longrightarrow> 1 \<le> a \<Longrightarrow> 1 \<le> b \<Longrightarrow> I (step a b s)"
    and new: "\<And>a b s. I s \<Longrightarrow> U a b s \<Longrightarrow> 1 \<le> a \<Longrightarrow> a < R \<Longrightarrow> 1 \<le> b \<Longrightarrow> b < C
               \<Longrightarrow> P a b (step a b s)"
    and old: "\<And>a b a' b' s. I s \<Longrightarrow> P a' b' s \<Longrightarrow> a' < a \<or> (a' = a \<and> b' < b)
               \<Longrightarrow> 1 \<le> a' \<Longrightarrow> 1 \<le> b' \<Longrightarrow> P a' b' (step a b s)"
    and frame: "\<And>a b a' b' s. U a' b' s \<Longrightarrow> (a', b') \<noteq> (a, b) \<Longrightarrow> U a' b' (step a b s)"
    and s: "I s" "\<forall>a b. 1 \<le> a \<and> a < i \<and> 1 \<le> b \<and> b < C \<longrightarrow> P a b s"
       "\<forall>a b. i \<le> a \<longrightarrow> U a b s"
    and i: "1 \<le> i" "i < R" and k: "k \<le> C"
  shows "I (fold (step i) [1..<k] s)
       \<and> (\<forall>a b. 1 \<le> a \<and> a < i \<and> 1 \<le> b \<and> b < C \<longrightarrow> P a b (fold (step i) [1..<k] s))
       \<and> (\<forall>b. 1 \<le> b \<and> b < k \<longrightarrow> P i b (fold (step i) [1..<k] s))
       \<and> (\<forall>a b. i < a \<or> (a = i \<and> k \<le> b) \<longrightarrow> U a b (fold (step i) [1..<k] s))"
  using k
proof (induction k)
  case 0
  show ?case using s by simp
next
  case (Suc k)
  show ?case
  proof (cases "k = 0")
    case True
    then show ?thesis using s by simp
  next
    case False
    then have up: "[1..<Suc k] = [1..<k] @ [k]" by simp
    define t where "t = fold (step i) [1..<k] s"
    have f: "fold (step i) [1..<Suc k] s = step i k t"
      unfolding up t_def by simp
    from Suc have kC: "k < C" and "k \<le> C" by simp_all
    from Suc.IH [OF \<open>k \<le> C\<close>] have
      It: "I t" and
      Pt: "\<And>a b. 1 \<le> a \<Longrightarrow> a < i \<Longrightarrow> 1 \<le> b \<Longrightarrow> b < C \<Longrightarrow> P a b t" and
      Qt: "\<And>b. 1 \<le> b \<Longrightarrow> b < k \<Longrightarrow> P i b t" and
      Ut: "\<And>a b. i < a \<or> (a = i \<and> k \<le> b) \<Longrightarrow> U a b t"
      unfolding t_def by blast+
    have 1: "I (step i k t)" using It i(1) False by (simp add: inv)
    have 2: "P a b (step i k t)" if "1 \<le> a" "a < i" "1 \<le> b" "b < C" for a b
      using old [OF It Pt [OF that]] that by blast
    have 3: "P i b (step i k t)" if "1 \<le> b" "b < Suc k" for b
    proof (cases "b = k")
      case True
      have "U i k t" using Ut by blast
      from new [OF It this i(1) i(2) _ kC] False show ?thesis unfolding True by simp
    next
      case False
      with that have "b < k" by simp
      from old [OF It Qt [OF that(1) this]] this that i show ?thesis by blast
    qed
    have 4: "U a b (step i k t)" if "i < a \<or> (a = i \<and> Suc k \<le> b)" for a b
    proof -
      from that have "U a b t" using Ut by auto
      moreover from that have "(a, b) \<noteq> (i, k)" by auto
      ultimately show ?thesis by (rule frame)
    qed
    show ?thesis unfolding f using 1 2 3 4 by blast
  qed
qed

lemma fold_cells:
  fixes step :: "nat \<Rightarrow> nat \<Rightarrow> 's \<Rightarrow> 's"
  assumes inv: "\<And>a b s. I s \<Longrightarrow> 1 \<le> a \<Longrightarrow> 1 \<le> b \<Longrightarrow> I (step a b s)"
    and new: "\<And>a b s. I s \<Longrightarrow> U a b s \<Longrightarrow> 1 \<le> a \<Longrightarrow> a < R \<Longrightarrow> 1 \<le> b \<Longrightarrow> b < C
               \<Longrightarrow> P a b (step a b s)"
    and old: "\<And>a b a' b' s. I s \<Longrightarrow> P a' b' s \<Longrightarrow> a' < a \<or> (a' = a \<and> b' < b)
               \<Longrightarrow> 1 \<le> a' \<Longrightarrow> 1 \<le> b' \<Longrightarrow> P a' b' (step a b s)"
    and frame: "\<And>a b a' b' s. U a' b' s \<Longrightarrow> (a', b') \<noteq> (a, b) \<Longrightarrow> U a' b' (step a b s)"
    and s: "I s" "\<forall>a b. U a b s"
    and r: "r \<le> R"
  shows "I (fold (\<lambda>i. fold (step i) [1..<C]) [1..<r] s)
       \<and> (\<forall>a b. 1 \<le> a \<and> a < r \<and> 1 \<le> b \<and> b < C
             \<longrightarrow> P a b (fold (\<lambda>i. fold (step i) [1..<C]) [1..<r] s))
       \<and> (\<forall>a b. r \<le> a \<longrightarrow> U a b (fold (\<lambda>i. fold (step i) [1..<C]) [1..<r] s))"
  using r
proof (induction r)
  case 0
  show ?case using s by simp
next
  case (Suc r)
  show ?case
  proof (cases "r = 0")
    case True
    then show ?thesis using s by simp
  next
    case False
    then have up: "[1..<Suc r] = [1..<r] @ [r]" by simp
    define t where "t = fold (\<lambda>i. fold (step i) [1..<C]) [1..<r] s"
    have f: "fold (\<lambda>i. fold (step i) [1..<C]) [1..<Suc r] s = fold (step r) [1..<C] t"
      unfolding up t_def by simp
    from Suc have rR: "r < R" and "r \<le> R" by simp_all
    from Suc.IH [OF \<open>r \<le> R\<close>] have
      It: "I t" and
      Pt: "\<forall>a b. 1 \<le> a \<and> a < r \<and> 1 \<le> b \<and> b < C \<longrightarrow> P a b t" and
      Ut: "\<forall>a b. r \<le> a \<longrightarrow> U a b t"
      unfolding t_def by blast+
    from False have r1: "1 \<le> r" by simp
    from fold_cells_inner [where I = I and U = U and P = P and step = step and R = R and C = C
        and i = r and k = C and s = t, OF inv new old frame It Pt Ut r1 rR order_refl]
    have "I (fold (step r) [1..<C] t)"
      and A: "\<forall>a b. 1 \<le> a \<and> a < r \<and> 1 \<le> b \<and> b < C \<longrightarrow> P a b (fold (step r) [1..<C] t)"
      and B: "\<forall>b. 1 \<le> b \<and> b < C \<longrightarrow> P r b (fold (step r) [1..<C] t)"
      and "\<forall>a b. r < a \<or> (a = r \<and> C \<le> b) \<longrightarrow> U a b (fold (step r) [1..<C] t)"
      by blast+
    moreover have "P a b (fold (step r) [1..<C] t)" if "1 \<le> a" "a < Suc r" "1 \<le> b" "b < C" for a b
      using A B that by (cases "a = r") auto
    ultimately show ?thesis unfolding f by auto
  qed
qed

subsection \<open>Cells of the filled tables, general gap penalty\<close>

lemma get2_set2_same: "i < length t \<Longrightarrow> j < length (t ! i) \<Longrightarrow> get2 (set2 t i j v) i j = v"
  by (simp add: get2_def set2_def)

lemma get2_set2_other: "(a, b) \<noteq> (i, j) \<Longrightarrow> get2 (set2 t i j v) a b = get2 t a b"
  by (cases "a = i"; cases "i < length t") (auto simp: get2_def set2_def list_update_beyond)

lemma rect_set2: "rect R C t \<Longrightarrow> rect R C (set2 t i j v)"
proof (cases "i < length t")
  case True
  assume "rect R C t"
  with True show ?thesis
    unfolding rect_def set2_def
    by (auto dest!: set_update_subset_insert [THEN subsetD])
next
  case False
  assume "rect R C t"
  with False show ?thesis by (simp add: set2_def list_update_beyond)
qed

lemma rect_shape0: "rect R C t \<Longrightarrow> shape0 t = R"
  by (simp add: rect_def shape0_def)

lemma rect_shape1: "rect R C t \<Longrightarrow> 0 < R \<Longrightarrow> shape1 t = C"
  by (cases t) (auto simp: rect_def shape1_def)

lemma rect_shape1_eq: "rect R C t \<Longrightarrow> rect R C t' \<Longrightarrow> shape1 t' = shape1 t"
  by (cases t; cases t') (auto simp: rect_def shape1_def)

lemma rect_row: "rect R C t \<Longrightarrow> i < R \<Longrightarrow> length (t ! i) = C"
  by (simp add: rect_def)

lemma fill_cell_fst_other:
  "(a, b) \<noteq> (i, j) \<Longrightarrow> get2 (fst (fill_cell c1 c2 m g tp loc i j s)) a b = get2 (fst s) a b"
  by (simp add: fill_cell_def Let_def get2_set2_other split: prod.splits)

lemma fill_cell_snd_other:
  "(a, b) \<noteq> (i, j) \<Longrightarrow> get2 (snd (fill_cell c1 c2 m g tp loc i j s)) a b = get2 (snd s) a b"
  by (simp add: fill_cell_def Let_def get2_set2_other split: prod.splits)

lemma fill_cell_rect:
  "rect R C (fst s) \<Longrightarrow> rect R C (snd s)
   \<Longrightarrow> rect R C (fst (fill_cell c1 c2 m g tp loc i j s)) \<and> rect R C (snd (fill_cell c1 c2 m g tp loc i j s))"
  by (simp add: fill_cell_def Let_def rect_set2 split: prod.splits)

lemma general_cell_cong:
  assumes "shape0 (snd s') = shape0 (snd s)" "shape1 (snd s') = shape1 (snd s)"
    and "get2 (snd s') (i - 1) (j - 1) = get2 (snd s) (i - 1) (j - 1)"
    and "get2 (snd s') i (j - 1) = get2 (snd s) i (j - 1)"
    and "get2 (snd s') (i - 1) j = get2 (snd s) (i - 1) j"
    and "get2 (snd s') i j = get2 (snd s) i j"
    and "get2 (fst s') i j = get2 (fst s) i j"
  shows "general_cell c1 c2 m g tp loc tt0 i j s' = general_cell c1 c2 m g tp loc tt0 i j s"
  using assms by (simp add: general_cell_def from_diag_def from_left_def from_top_def)

lemma fill_cell_new:
  assumes "general_inv R C tt0 st0 s" and u: "get2 (fst s) i j = get2 tt0 i j"
    and i: "1 \<le> i" "i < R" and j: "1 \<le> j" "j < C"
  shows "general_cell c1 c2 m g tp loc tt0 i j (fill_cell c1 c2 m g tp loc i j s)"
proof -
  from assms(1) have r: "rect R C (fst s)" "rect R C (snd s)" by (simp_all add: general_inv_def)
  from fill_cell_rect [OF r] have r': "rect R C (snd (fill_cell c1 c2 m g tp loc i j s))" by simp
  have len: "i < length (fst s)" "j < length (fst s ! i)" "i < length (snd s)" "j < length (snd s ! i)"
    using r i j by (simp_all add: rect_def)
  have sh: "shape0 (snd (fill_cell c1 c2 m g tp loc i j s)) = shape0 (snd s)"
       "shape1 (snd (fill_cell c1 c2 m g tp loc i j s)) = shape1 (snd s)"
    using r r' i by (simp_all add: rect_shape0 rect_shape1)
  have d: "from_diag c1 c2 m (snd (fill_cell c1 c2 m g tp loc i j s)) i j = from_diag c1 c2 m (snd s) i j"
    using i j by (simp add: from_diag_def fill_cell_snd_other)
  have l: "from_left (snd (fill_cell c1 c2 m g tp loc i j s)) g tp i j = from_left (snd s) g tp i j"
    using i j sh by (simp add: from_left_def fill_cell_snd_other)
  have t: "from_top (snd (fill_cell c1 c2 m g tp loc i j s)) g tp i j = from_top (snd s) g tp i j"
    using i j sh by (simp add: from_top_def fill_cell_snd_other)
  show ?thesis
    unfolding general_cell_def d l t
    using len u
    by (simp add: fill_cell_def Let_def get2_set2_same split: prod.splits)
qed

lemma fill_cell_old:
  assumes "general_inv R C tt0 st0 s" and p: "general_cell c1 c2 m g tp loc tt0 a b s"
    and lt: "a < i \<or> (a = i \<and> b < j)" and a: "1 \<le> a" and b: "1 \<le> b"
  shows "general_cell c1 c2 m g tp loc tt0 a b (fill_cell c1 c2 m g tp loc i j s)"
proof -
  from assms(1) have r: "rect R C (fst s)" "rect R C (snd s)" by (simp_all add: general_inv_def)
  from fill_cell_rect [OF r] have r': "rect R C (snd (fill_cell c1 c2 m g tp loc i j s))" by simp
  have sh0: "shape0 (snd (fill_cell c1 c2 m g tp loc i j s)) = shape0 (snd s)"
    using r r' by (simp add: rect_shape0)
  have sh1: "shape1 (snd (fill_cell c1 c2 m g tp loc i j s)) = shape1 (snd s)"
    using r(2) r' by (rule rect_shape1_eq)
  have ne: "(a - 1, b - 1) \<noteq> (i, j)" "(a, b - 1) \<noteq> (i, j)" "(a - 1, b) \<noteq> (i, j)" "(a, b) \<noteq> (i, j)"
    using lt a b by auto
  have "general_cell c1 c2 m g tp loc tt0 a b (fill_cell c1 c2 m g tp loc i j s)
      = general_cell c1 c2 m g tp loc tt0 a b s"
    by (rule general_cell_cong)
       (rule sh0 sh1 fill_cell_snd_other [OF ne(1)] fill_cell_snd_other [OF ne(2)]
          fill_cell_snd_other [OF ne(3)] fill_cell_snd_other [OF ne(4)]
          fill_cell_fst_other [OF ne(4)])+
  with p show ?thesis by simp
qed

lemma fill_cell_inv:
  assumes "general_inv R C tt0 st0 s" and "1 \<le> i" "1 \<le> j"
  shows "general_inv R C tt0 st0 (fill_cell c1 c2 m g tp loc i j s)"
proof -
  from assms(1) have r: "rect R C (fst s)" "rect R C (snd s)" by (simp_all add: general_inv_def)
  have "(a, b) \<noteq> (i, j)" if "a = 0 \<or> b = 0" for a b using that assms(2,3) by auto
  then show ?thesis
    using assms(1) fill_cell_rect [OF r]
    by (simp add: general_inv_def fill_cell_snd_other fill_cell_fst_other)
qed


lemma fill_align_table_cells:
  assumes "rect R C tt0" "rect R C st0"
  shows "general_inv R C tt0 st0 (fill_align_table c1 c2 m tt0 st0 g tp loc)
       \<and> (\<forall>i j. 1 \<le> i \<and> i < R \<and> 1 \<le> j \<and> j < C
             \<longrightarrow> general_cell c1 c2 m g tp loc tt0 i j (fill_align_table c1 c2 m tt0 st0 g tp loc))"
proof (cases "R = 0")
  case True
  with assms have "fill_align_table c1 c2 m tt0 st0 g tp loc = (tt0, st0)"
    by (simp add: fill_align_table_def rect_shape0)
  with assms True show ?thesis by (simp add: general_inv_def)
next
  case False
  with assms have sh: "shape0 st0 = R" "shape1 st0 = C"
    by (simp_all add: rect_shape0 rect_shape1)
  have I0: "general_inv R C tt0 st0 (tt0, st0)"
    using assms by (simp add: general_inv_def)
  have U0: "\<forall>a b. get2 (fst (tt0, st0)) a b = get2 tt0 a b" by simp
  have "general_inv R C tt0 st0 (fold (\<lambda>i. fold (fill_cell c1 c2 m g tp loc i) [1..<C]) [1..<R] (tt0, st0))
       \<and> (\<forall>a b. 1 \<le> a \<and> a < R \<and> 1 \<le> b \<and> b < C
             \<longrightarrow> general_cell c1 c2 m g tp loc tt0 a b
                   (fold (\<lambda>i. fold (fill_cell c1 c2 m g tp loc i) [1..<C]) [1..<R] (tt0, st0)))
       \<and> (\<forall>a b. R \<le> a \<longrightarrow> get2 (fst (fold (\<lambda>i. fold (fill_cell c1 c2 m g tp loc i) [1..<C]) [1..<R] (tt0, st0))) a b
                          = get2 tt0 a b)"
  proof (rule fold_cells [where I = "general_inv R C tt0 st0"
      and U = "\<lambda>a b s. get2 (fst s) a b = get2 tt0 a b"
      and P = "general_cell c1 c2 m g tp loc tt0"
      and step = "fill_cell c1 c2 m g tp loc" and R = R and C = C and r = R and s = "(tt0, st0)"])
    show "general_inv R C tt0 st0 (fill_cell c1 c2 m g tp loc a b s)"
      if "general_inv R C tt0 st0 s" "1 \<le> a" "1 \<le> b" for a b s
      using that by (rule fill_cell_inv)
    show "general_cell c1 c2 m g tp loc tt0 a b (fill_cell c1 c2 m g tp loc a b s)"
      if "general_inv R C tt0 st0 s" "get2 (fst s) a b = get2 tt0 a b"
         "1 \<le> a" "a < R" "1 \<le> b" "b < C" for a b s
      using that by (rule fill_cell_new)
    show "general_cell c1 c2 m g tp loc tt0 a' b' (fill_cell c1 c2 m g tp loc a b s)"
      if "general_inv R C tt0 st0 s" "general_cell c1 c2 m g tp loc tt0 a' b' s"
         "a' < a \<or> (a' = a \<and> b' < b)" "1 \<le> a'" "1 \<le> b'" for a b a' b' s
      using that by (rule fill_cell_old)
    show "get2 (fst (fill_cell c1 c2 m g tp loc a b s)) a' b' = get2 tt0 a' b'"
      if "get2 (fst s) a' b' = get2 tt0 a' b'" "(a', b') \<noteq> (a, b)" for a b a' b' s
      using that by (simp add: fill_cell_fst_other)
    show "general_inv R C tt0 st0 (tt0, st0)" by (rule I0)
    show "\<forall>a b. get2 (fst (tt0, st0)) a b = get2 tt0 a b" by simp
    show "R \<le> R" by simp
  qed
  then show ?thesis
    unfolding fill_align_table_def sh by blast
qed

subsection \<open>Cells of the filled tables, affine gap penalty\<close>

lemma affine_scores_cong:
  assumes "shape0 (trace_table s') = shape0 (trace_table s)"
    and "shape1 (trace_table s') = shape1 (trace_table s)"
    and "affine_at s' (i - 1) (j - 1) = affine_at s (i - 1) (j - 1)"
    and "affine_at s' i (j - 1) = affine_at s i (j - 1)"
    and "affine_at s' (i - 1) j = affine_at s (i - 1) j"
  shows "affine_scores c1 c2 m go ge tp loc i j s' = affine_scores c1 c2 m go ge tp loc i j s"
proof -
  have "diag_score (m_table s') x i j = diag_score (m_table s) x i j"
    "diag_score (g1_table s') x i j = diag_score (g1_table s) x i j"
    "diag_score (g2_table s') x i j = diag_score (g2_table s) x i j"
    "left_score s' (m_table s') go tp i j = left_score s (m_table s) go tp i j"
    "left_score s' (g1_table s') ge tp i j = left_score s (g1_table s) ge tp i j"
    "top_score s' (m_table s') go tp i j = top_score s (m_table s) go tp i j"
    "top_score s' (g2_table s') ge tp i j = top_score s (g2_table s) ge tp i j" for x
    using assms by (simp_all add: affine_at_def diag_score_def left_score_def top_score_def)
  then show ?thesis by (simp add: affine_scores_def)
qed

lemma fill_cell_affine_other:
  "(a, b) \<noteq> (i, j)
   \<Longrightarrow> affine_at (fill_cell_affine c1 c2 m go ge tp loc i j s) a b = affine_at s a b"
  by (simp add: fill_cell_affine_def affine_at_def get2_set2_other split: prod.splits)

lemma fill_cell_affine_rect:
  assumes "rect R C (trace_table s)" "rect R C (m_table s)" "rect R C (g1_table s)" "rect R C (g2_table s)"
  shows "rect R C (trace_table (fill_cell_affine c1 c2 m go ge tp loc i j s))
       \<and> rect R C (m_table (fill_cell_affine c1 c2 m go ge tp loc i j s))
       \<and> rect R C (g1_table (fill_cell_affine c1 c2 m go ge tp loc i j s))
       \<and> rect R C (g2_table (fill_cell_affine c1 c2 m go ge tp loc i j s))"
  using assms by (simp add: fill_cell_affine_def rect_set2 split: prod.splits)

lemma fill_cell_affine_same:
  assumes "rect R C (trace_table s)" "rect R C (m_table s)" "rect R C (g1_table s)" "rect R C (g2_table s)"
    and "i < R" "j < C"
  shows "affine_at (fill_cell_affine c1 c2 m go ge tp loc i j s) i j
       = affine_scores c1 c2 m go ge tp loc i j s"
  using assms
  by (simp add: fill_cell_affine_def affine_at_def get2_set2_same rect_def split: prod.splits)

lemma fill_cell_affine_shape:
  assumes "affine_inv R C st0 s"
  shows "shape0 (trace_table (fill_cell_affine c1 c2 m go ge tp loc i j s)) = shape0 (trace_table s)"
    and "shape1 (trace_table (fill_cell_affine c1 c2 m go ge tp loc i j s)) = shape1 (trace_table s)"
proof -
  from assms have r: "rect R C (trace_table s)" "rect R C (m_table s)" "rect R C (g1_table s)"
    "rect R C (g2_table s)" by (simp_all add: affine_inv_def)
  from fill_cell_affine_rect [OF r]
  have r': "rect R C (trace_table (fill_cell_affine c1 c2 m go ge tp loc i j s))" by simp
  show "shape0 (trace_table (fill_cell_affine c1 c2 m go ge tp loc i j s)) = shape0 (trace_table s)"
    using r(1) r' by (simp add: rect_shape0)
  show "shape1 (trace_table (fill_cell_affine c1 c2 m go ge tp loc i j s)) = shape1 (trace_table s)"
    using r(1) r' by (rule rect_shape1_eq)
qed

lemma fill_cell_affine_inv:
  assumes "affine_inv R C st0 s" and "1 \<le> i" "1 \<le> j"
  shows "affine_inv R C st0 (fill_cell_affine c1 c2 m go ge tp loc i j s)"
proof -
  from assms(1) have r: "rect R C (trace_table s)" "rect R C (m_table s)" "rect R C (g1_table s)"
    "rect R C (g2_table s)" by (simp_all add: affine_inv_def)
  have "(a, b) \<noteq> (i, j)" if "a = 0 \<or> b = 0" for a b using that assms(2,3) by auto
  then show ?thesis
    using assms(1) fill_cell_affine_rect [OF r]
    by (simp add: affine_inv_def fill_cell_affine_other)
qed

lemma fill_cell_affine_new:
  assumes "affine_inv R C st0 s" and i: "1 \<le> i" "i < R" and j: "1 \<le> j" "j < C"
  shows "affine_at (fill_cell_affine c1 c2 m go ge tp loc i j s) i j
       = affine_scores c1 c2 m go ge tp loc i j (fill_cell_affine c1 c2 m go ge tp loc i j s)"
proof -
  from assms(1) have r: "rect R C (trace_table s)" "rect R C (m_table s)" "rect R C (g1_table s)"
    "rect R C (g2_table s)" by (simp_all add: affine_inv_def)
  have ne: "(i - 1, j - 1) \<noteq> (i, j)" "(i, j - 1) \<noteq> (i, j)" "(i - 1, j) \<noteq> (i, j)"
    using i j by auto
  have "affine_scores c1 c2 m go ge tp loc i j (fill_cell_affine c1 c2 m go ge tp loc i j s)
      = affine_scores c1 c2 m go ge tp loc i j s"
    by (rule affine_scores_cong)
       (rule fill_cell_affine_shape [OF assms(1)] fill_cell_affine_other [OF ne(1)]
          fill_cell_affine_other [OF ne(2)] fill_cell_affine_other [OF ne(3)])+
  with fill_cell_affine_same [OF r i(2) j(2)] show ?thesis by simp
qed

lemma fill_cell_affine_old:
  assumes "affine_inv R C st0 s"
    and p: "affine_at s a b = affine_scores c1 c2 m go ge tp loc a b s"
    and lt: "a < i \<or> (a = i \<and> b < j)" and a: "1 \<le> a" and b: "1 \<le> b"
  shows "affine_at (fill_cell_affine c1 c2 m go ge tp loc i j s) a b
       = affine_scores c1 c2 m go ge tp loc a b (fill_cell_affine c1 c2 m go ge tp loc i j s)"
proof -
  have ne: "(a - 1, b - 1) \<noteq> (i, j)" "(a, b - 1) \<noteq> (i, j)" "(a - 1, b) \<noteq> (i, j)" "(a, b) \<noteq> (i, j)"
    using lt a b by auto
  have "affine_scores c1 c2 m go ge tp loc a b (fill_cell_affine c1 c2 m go ge tp loc i j s)
      = affine_scores c1 c2 m go ge tp loc a b s"
    by (rule affine_scores_cong)
       (rule fill_cell_affine_shape [OF assms(1)] fill_cell_affine_other [OF ne(1)]
          fill_cell_affine_other [OF ne(2)] fill_cell_affine_other [OF ne(3)])+
  with p fill_cell_affine_other [OF ne(4)] show ?thesis by simp
qed

lemma fill_align_table_affine_cells:
  assumes "rect R C (trace_table st0)" "rect R C (m_table st0)" "rect R C (g1_table st0)"
    "rect R C (g2_table st0)"
  shows "affine_inv R C st0 (fill_align_table_affine c1 c2 m st0 go ge tp loc)
       \<and> (\<forall>i j. 1 \<le> i \<and> i < R \<and> 1 \<le> j \<and> j < C
             \<longrightarrow> affine_at (fill_align_table_affine c1 c2 m st0 go ge tp loc) i j
                 = affine_scores c1 c2 m go ge tp loc i j
                     (fill_align_table_affine c1 c2 m st0 go ge tp loc))"
proof (cases "R = 0")
  case True
  with assms have "fill_align_table_affine c1 c2 m st0 go ge tp loc = st0"
    by (simp add: fill_align_table_affine_def rect_shape0)
  with assms True show ?thesis by (simp add: affine_inv_def)
next
  case False
  with assms have sh: "shape0 (trace_table st0) = R" "shape1 (trace_table st0) = C"
    by (simp_all add: rect_shape0 rect_shape1)
  have I0: "affine_inv R C st0 st0"
    using assms by (simp add: affine_inv_def)
  have inv: "affine_inv R C st0 (fill_cell_affine c1 c2 m go ge tp loc a b s)"
    if "affine_inv R C st0 s" "1 \<le> a" "1 \<le> b" for a b s
    using that by (rule fill_cell_affine_inv)
  have new: "affine_at (fill_cell_affine c1 c2 m go ge tp loc a b s) a b
      = affine_scores c1 c2 m go ge tp loc a b (fill_cell_affine c1 c2 m go ge tp loc a b s)"
    if "affine_inv R C st0 s" "True" "1 \<le> a" "a < R" "1 \<le> b" "b < C" for a b s
    using that(1,3-) by (rule fill_cell_affine_new)
  have old: "affine_at (fill_cell_affine c1 c2 m go ge tp loc a b s) a' b'
      = affine_scores c1 c2 m go ge tp loc a' b' (fill_cell_affine c1 c2 m go ge tp loc a b s)"
    if "affine_inv R C st0 s" "affine_at s a' b' = affine_scores c1 c2 m go ge tp loc a' b' s"
       "a' < a \<or> (a' = a \<and> b' < b)" "1 \<le> a'" "1 \<le> b'" for a b a' b' s
    using that by (rule fill_cell_affine_old)
  have "affine_inv R C st0 (fold (\<lambda>i. fold (fill_cell_affine c1 c2 m go ge tp loc i) [1..<C]) [1..<R] st0)
       \<and> (\<forall>a b. 1 \<le> a \<and> a < R \<and> 1 \<le> b \<and> b < C
             \<longrightarrow> affine_at (fold (\<lambda>i. fold (fill_cell_affine c1 c2 m go ge tp loc i) [1..<C]) [1..<R] st0) a b
                 = affine_scores c1 c2 m go ge tp loc a b
                   (fold (\<lambda>i. fold (fill_cell_affine c1 c2 m go ge tp loc i) [1..<C]) [1..<R] st0))
       \<and> (\<forall>a b::nat. R \<le> a \<longrightarrow> True)"
    by (rule fold_cells [where I = "affine_inv R C st0"
      and U = "\<lambda>a b s. True"
      and P = "\<lambda>a b s. affine_at s a b = affine_scores c1 c2 m go ge tp loc a b s"
      and step = "fill_cell_affine c1 c2 m go ge tp loc" and R = R and C = C and r = R and s = st0])
      (fact inv new old I0 | simp)+
  then show ?thesis
    unfolding fill_align_table_affine_def sh by blast
qed

subsection \<open>The tables before the filling\<close>

lemma rect_zeros: "rect r c (zeros r c)"
  by (simp add: rect_def zeros_def)

lemma rect_assign_row: "rect R C t \<Longrightarrow> rect R C (assign_row t i j0 f)"
proof (cases "i < length t")
  case True
  assume "rect R C t"
  with True show ?thesis
    unfolding rect_def assign_row_def
    by (auto dest!: set_update_subset_insert [THEN subsetD])
next
  case False
  assume "rect R C t"
  with False show ?thesis by (simp add: assign_row_def list_update_beyond)
qed

lemma rect_assign_col: "rect R C t \<Longrightarrow> rect R C (assign_col t j i0 f)"
  unfolding rect_def assign_col_def by auto

lemma get2_zeros: "a < r \<Longrightarrow> b < c \<Longrightarrow> get2 (zeros r c) a b = 0"
  by (simp add: get2_def zeros_def)

lemma get2_assign_row:
  "rect R C t \<Longrightarrow> i < R \<Longrightarrow> a < R \<Longrightarrow> b < C
   \<Longrightarrow> get2 (assign_row t i j0 f) a b = (if a = i \<and> j0 \<le> b then f (b - j0) else get2 t a b)"
  by (cases "a = i") (auto simp: get2_def assign_row_def rect_def)

lemma get2_assign_col:
  "rect R C t \<Longrightarrow> a < R \<Longrightarrow> b < C
   \<Longrightarrow> get2 (assign_col t j i0 f) a b = (if b = j \<and> i0 \<le> a then f (a - i0) else get2 t a b)"
  by (auto simp: get2_def assign_col_def rect_def)

lemma init_general_rect:
  "rect (Suc n) (Suc m) (fst (init_general n m g tp loc))"
  "rect (Suc n) (Suc m) (snd (init_general n m g tp loc))"
  by (simp_all add: init_general_def Let_def rect_zeros rect_assign_row rect_assign_col)

lemma init_general_trace:
  "a \<le> n \<Longrightarrow> b \<le> m \<Longrightarrow>
   get2 (fst (init_general n m g tp loc)) a b =
     (if loc then 0 else if a = 0 \<and> 1 \<le> b then 2 else if b = 0 \<and> 1 \<le> a then 4 else 0)"
  by (simp add: init_general_def Let_def get2_assign_row [where R = "Suc n" and C = "Suc m"]
      get2_assign_col [where R = "Suc n" and C = "Suc m"] rect_zeros rect_assign_col get2_zeros)

lemma init_affine_rect:
  "rect (Suc n) (Suc m) (trace_table (init_affine n m go ge ninf tp loc))"
  "rect (Suc n) (Suc m) (m_table (init_affine n m go ge ninf tp loc))"
  "rect (Suc n) (Suc m) (g1_table (init_affine n m go ge ninf tp loc))"
  "rect (Suc n) (Suc m) (g2_table (init_affine n m go ge ninf tp loc))"
  by (simp_all add: init_affine_def Let_def rect_zeros rect_assign_row rect_assign_col)

lemma init_affine_trace:
  "a \<le> n \<Longrightarrow> b \<le> m \<Longrightarrow>
   get2 (trace_table (init_affine n m go ge ninf tp loc)) a b =
     (if loc then 0 else if a = 0 \<and> 1 \<le> b then 16 else if b = 0 \<and> 1 \<le> a then 64 else 0)"
  by (simp add: init_affine_def Let_def get2_assign_row [where R = "Suc n" and C = "Suc m"]
      get2_assign_col [where R = "Suc n" and C = "Suc m"] rect_zeros rect_assign_col get2_zeros)

lemma find_maximum_le: "snd (find_maximum d l t) \<le> max d (max l t)"
  by (simp add: find_maximum_def)

lemma find_maximum_trace: "fst (find_maximum d l t) \<in> {1, 2, 3, 4, 5, 6, 7}"
  by (simp add: find_maximum_def)

lemma find_gap1_max: "snd (find_gap1 a b) = max a b"
  by (simp add: find_gap1_def)

lemma find_gap2_max: "snd (find_gap2 a b) = max a b"
  by (simp add: find_gap2_def)

lemma find_gap1_trace: "fst (find_gap1 a b) \<in> {8, 16, 24}"
  by (simp add: find_gap1_def)

lemma find_gap2_trace: "fst (find_gap2 a b) \<in> {32, 64, 96}"
  by (simp add: find_gap2_def)

lemma trace_groups:
  fixes t0 b1 b2 :: uint8
  assumes "t0 \<in> {1, 2, 3, 4, 5, 6, 7}" "b1 \<in> {8, 16, 24}" "b2 \<in> {32, 64, 96}"
  shows "(t0 OR b1 OR b2) AND 7 = t0" "(t0 OR b1 OR b2) AND 24 = b1" "(t0 OR b1 OR b2) AND 96 = b2"
  using assms by auto

subsection \<open>Local alignment: scores that are not positive\<close>

lemma clamp_groups:
  fixes t0 b1 b2 :: uint8 and c0 c1 c2 :: bool
  assumes "t0 \<in> {1, 2, 3, 4, 5, 6, 7}" "b1 \<in> {8, 16, 24}" "b2 \<in> {32, 64, 96}"
  defines "v \<equiv> (if c2 then (\<lambda>t. t AND NOT 96) else id)
                 ((if c1 then (\<lambda>t. t AND NOT 24) else id)
                    ((if c0 then (\<lambda>t. t AND NOT 7) else id) (t0 OR b1 OR b2)))"
  shows "v AND 7 = (if c0 then 0 else t0)"
    and "v AND 24 = (if c1 then 0 else b1)"
    and "v AND 96 = (if c2 then 0 else b2)"
  using assms(1-3) unfolding v_def by (cases c0; cases c1; cases c2; auto)+


lemma general_tables_cells:
  "general_inv (Suc (length (code seq1))) (Suc (length (code seq2)))
     (fst (init_general (length (code seq1)) (length (code seq2)) g tp loc))
     (snd (init_general (length (code seq1)) (length (code seq2)) g tp loc))
     (general_tables seq1 seq2 matrix g tp loc)
   \<and> (\<forall>i j. 1 \<le> i \<and> i < Suc (length (code seq1)) \<and> 1 \<le> j \<and> j < Suc (length (code seq2))
         \<longrightarrow> general_cell (code seq1) (code seq2) (score_matrix matrix) g tp loc
               (fst (init_general (length (code seq1)) (length (code seq2)) g tp loc)) i j
               (general_tables seq1 seq2 matrix g tp loc))"
  unfolding general_tables_def Let_def
  by (rule fill_align_table_cells) (rule init_general_rect)+

lemma affine_tables_cells:
  "affine_inv (Suc (length (code seq1))) (Suc (length (code seq2)))
     (init_affine (length (code seq1)) (length (code seq2)) go ge
        (neg_inf go ge (np_min (concat (score_matrix matrix)))) tp loc)
     (affine_tables seq1 seq2 matrix go ge tp loc)
   \<and> (\<forall>i j. 1 \<le> i \<and> i < Suc (length (code seq1)) \<and> 1 \<le> j \<and> j < Suc (length (code seq2))
         \<longrightarrow> affine_at (affine_tables seq1 seq2 matrix go ge tp loc) i j
             = affine_scores (code seq1) (code seq2) (score_matrix matrix) go ge tp loc i j
                 (affine_tables seq1 seq2 matrix go ge tp loc))"
  unfolding affine_tables_def Let_def
  by (rule fill_align_table_affine_cells) (rule init_affine_rect)+

lemma local_clamp_general:
  fixes seq1 seq2 :: sequence and matrix :: substitution_matrix and g :: int and tp :: bool
  assumes ij: "1 \<le> i" "i \<le> length (code seq1)" "1 \<le> j" "j \<le> length (code seq2)"
  defines "tabs \<equiv> general_tables seq1 seq2 matrix g tp True"
  defines "r \<equiv> find_maximum (from_diag (code seq1) (code seq2) (score_matrix matrix) (snd tabs) i j)
                  (from_left (snd tabs) g tp i j) (from_top (snd tabs) g tp i j)"
  shows "(max (from_diag (code seq1) (code seq2) (score_matrix matrix) (snd tabs) i j)
            (max (from_left (snd tabs) g tp i j) (from_top (snd tabs) g tp i j)) \<le> 0
          \<longrightarrow> get2 (snd tabs) i j = 0 \<and> get2 (fst tabs) i j = 0)
       \<and> (trace_ends 0 (get2 (fst tabs) i j) \<longleftrightarrow> snd r \<le> 0)"
proof -
  from general_tables_cells [of seq1 seq2 g tp True matrix] ij
  have c: "general_cell (code seq1) (code seq2) (score_matrix matrix) g tp True
             (fst (init_general (length (code seq1)) (length (code seq2)) g tp True)) i j tabs"
    unfolding tabs_def by simp
  have z: "get2 (fst (init_general (length (code seq1)) (length (code seq2)) g tp True)) i j = 0"
    using ij by (simp add: init_general_trace)
  have le: "snd r \<le> max (from_diag (code seq1) (code seq2) (score_matrix matrix) (snd tabs) i j)
            (max (from_left (snd tabs) g tp i j) (from_top (snd tabs) g tp i j))"
    unfolding r_def by (rule find_maximum_le)
  have nz: "fst r \<noteq> 0"
    using find_maximum_trace [of "from_diag (code seq1) (code seq2) (score_matrix matrix) (snd tabs) i j"
       "from_left (snd tabs) g tp i j" "from_top (snd tabs) g tp i j"]
    unfolding r_def by auto
  from c have "if snd r \<le> 0 then get2 (snd tabs) i j = 0 \<and> get2 (fst tabs) i j = 0
               else get2 (snd tabs) i j = snd r \<and> get2 (fst tabs) i j = fst r"
    unfolding general_cell_def r_def z by (simp add: Let_def)
  with le nz show ?thesis
    by (auto simp: trace_ends_def split: if_splits)
qed


lemma local_clamp_affine:
  fixes seq1 seq2 :: sequence and matrix :: substitution_matrix and go ge :: int and tp :: bool
  assumes ij: "1 \<le> i" "i \<le> length (code seq1)" "1 \<le> j" "j \<le> length (code seq2)"
  defines "st \<equiv> affine_tables seq1 seq2 matrix go ge tp True"
  defines "sim \<equiv> similarity (code seq1) (code seq2) (score_matrix matrix) i j"
  defines "rm \<equiv> find_maximum (diag_score (m_table st) sim i j) (diag_score (g1_table st) sim i j)
                   (diag_score (g2_table st) sim i j)"
  defines "r1 \<equiv> find_gap1 (left_score st (m_table st) go tp i j) (left_score st (g1_table st) ge tp i j)"
  defines "r2 \<equiv> find_gap2 (top_score st (m_table st) go tp i j) (top_score st (g2_table st) ge tp i j)"
  shows "(max (diag_score (m_table st) sim i j)
            (max (diag_score (g1_table st) sim i j) (diag_score (g2_table st) sim i j)) \<le> 0
          \<longrightarrow> get2 (m_table st) i j = 0 \<and> get2 (trace_table st) i j AND 7 = 0)
       \<and> (max (left_score st (m_table st) go tp i j) (left_score st (g1_table st) ge tp i j) \<le> 0
          \<longrightarrow> get2 (g1_table st) i j = 0 \<and> get2 (trace_table st) i j AND 24 = 0)
       \<and> (max (top_score st (m_table st) go tp i j) (top_score st (g2_table st) ge tp i j) \<le> 0
          \<longrightarrow> get2 (g2_table st) i j = 0 \<and> get2 (trace_table st) i j AND 96 = 0)
       \<and> get2 (trace_table st) i j AND 7 = (if snd rm \<le> 0 then 0 else fst rm)
       \<and> get2 (trace_table st) i j AND 24 = (if snd r1 \<le> 0 then 0 else fst r1)
       \<and> get2 (trace_table st) i j AND 96 = (if snd r2 \<le> 0 then 0 else fst r2)
       \<and> (trace_ends 1 (get2 (trace_table st) i j) \<longleftrightarrow> snd rm \<le> 0)
       \<and> (trace_ends 2 (get2 (trace_table st) i j) \<longleftrightarrow> snd r1 \<le> 0)
       \<and> (trace_ends 3 (get2 (trace_table st) i j) \<longleftrightarrow> snd r2 \<le> 0)"
proof -
  from affine_tables_cells [of seq1 seq2 go ge matrix tp True] ij
  have "affine_at st i j
      = affine_scores (code seq1) (code seq2) (score_matrix matrix) go ge tp True i j st"
    unfolding st_def by simp
  then have c: "get2 (trace_table st) i j =
        (if snd r2 \<le> 0 then (\<lambda>t. t AND NOT 96) else id)
          ((if snd r1 \<le> 0 then (\<lambda>t. t AND NOT 24) else id)
             ((if snd rm \<le> 0 then (\<lambda>t. t AND NOT 7) else id) (fst rm OR fst r1 OR fst r2)))"
    and m: "get2 (m_table st) i j = (if snd rm \<le> 0 then 0 else snd rm)"
    and g1: "get2 (g1_table st) i j = (if snd r1 \<le> 0 then 0 else snd r1)"
    and g2: "get2 (g2_table st) i j = (if snd r2 \<le> 0 then 0 else snd r2)"
    unfolding affine_at_def affine_scores_def rm_def r1_def r2_def sim_def
    by (simp_all add: Let_def case_prod_beta)
  have tm: "fst rm \<in> {1, 2, 3, 4, 5, 6, 7}" unfolding rm_def by (rule find_maximum_trace)
  have t1: "fst r1 \<in> {8, 16, 24}" unfolding r1_def by (rule find_gap1_trace)
  have t2: "fst r2 \<in> {32, 64, 96}" unfolding r2_def by (rule find_gap2_trace)
  note grp = clamp_groups [OF tm t1 t2, of "snd r2 \<le> 0" "snd r1 \<le> 0" "snd rm \<le> 0", folded c]
  have lem: "snd rm \<le> max (diag_score (m_table st) sim i j)
            (max (diag_score (g1_table st) sim i j) (diag_score (g2_table st) sim i j))"
    unfolding rm_def by (rule find_maximum_le)
  have le1: "snd r1 = max (left_score st (m_table st) go tp i j) (left_score st (g1_table st) ge tp i j)"
    unfolding r1_def by (rule find_gap1_max)
  have le2: "snd r2 = max (top_score st (m_table st) go tp i j) (top_score st (g2_table st) ge tp i j)"
    unfolding r2_def by (rule find_gap2_max)
  have nz: "fst rm \<noteq> 0" "fst r1 \<noteq> 0" "fst r2 \<noteq> 0"
    using tm t1 t2 by auto
  have a: "max (diag_score (m_table st) sim i j)
            (max (diag_score (g1_table st) sim i j) (diag_score (g2_table st) sim i j)) \<le> 0
          \<longrightarrow> get2 (m_table st) i j = 0 \<and> get2 (trace_table st) i j AND 7 = 0"
    using lem m grp(1) by auto
  have b: "max (left_score st (m_table st) go tp i j) (left_score st (g1_table st) ge tp i j) \<le> 0
          \<longrightarrow> get2 (g1_table st) i j = 0 \<and> get2 (trace_table st) i j AND 24 = 0"
    using le1 g1 grp(2) by auto
  have c': "max (top_score st (m_table st) go tp i j) (top_score st (g2_table st) ge tp i j) \<le> 0
          \<longrightarrow> get2 (g2_table st) i j = 0 \<and> get2 (trace_table st) i j AND 96 = 0"
    using le2 g2 grp(3) by auto
  have e: "trace_ends 1 (get2 (trace_table st) i j) \<longleftrightarrow> snd rm \<le> 0"
    "trace_ends 2 (get2 (trace_table st) i j) \<longleftrightarrow> snd r1 \<le> 0"
    "trace_ends 3 (get2 (trace_table st) i j) \<longleftrightarrow> snd r2 \<le> 0"
    using nz by (simp_all add: trace_ends_def grp)
  from a b c' grp e show ?thesis by blast
qed

text \<open>
  Claim C7. In a local alignment, an interior cell whose three candidates are all at
  most 0 gets the score 0 and an empty trace value in the general table; in the affine
  tables, each of the three tables gets 0 where its own candidates are all at most 0,
  and the bit group of that table alone is empty then: every bit group of the trace
  value is empty when the score of its table was not positive and holds the bits of
  the maximum otherwise. The traceback in a table ends at a cell exactly when the score
  computed for that table was not positive.
\<close>

theorem local_clamp:
  fixes seq1 seq2 :: sequence and matrix :: substitution_matrix and g go ge :: int and tp :: bool
  assumes ij: "1 \<le> i" "i \<le> length (code seq1)" "1 \<le> j" "j \<le> length (code seq2)"
  defines "tabs \<equiv> general_tables seq1 seq2 matrix g tp True"
  defines "r \<equiv> find_maximum (from_diag (code seq1) (code seq2) (score_matrix matrix) (snd tabs) i j)
                  (from_left (snd tabs) g tp i j) (from_top (snd tabs) g tp i j)"
  defines "st \<equiv> affine_tables seq1 seq2 matrix go ge tp True"
  defines "sim \<equiv> similarity (code seq1) (code seq2) (score_matrix matrix) i j"
  defines "rm \<equiv> find_maximum (diag_score (m_table st) sim i j) (diag_score (g1_table st) sim i j)
                   (diag_score (g2_table st) sim i j)"
  defines "r1 \<equiv> find_gap1 (left_score st (m_table st) go tp i j) (left_score st (g1_table st) ge tp i j)"
  defines "r2 \<equiv> find_gap2 (top_score st (m_table st) go tp i j) (top_score st (g2_table st) ge tp i j)"
  shows "((max (from_diag (code seq1) (code seq2) (score_matrix matrix) (snd tabs) i j)
            (max (from_left (snd tabs) g tp i j) (from_top (snd tabs) g tp i j)) \<le> 0
          \<longrightarrow> get2 (snd tabs) i j = 0 \<and> get2 (fst tabs) i j = 0)
       \<and> (trace_ends 0 (get2 (fst tabs) i j) \<longleftrightarrow> snd r \<le> 0))
       \<and> ((max (diag_score (m_table st) sim i j)
            (max (diag_score (g1_table st) sim i j) (diag_score (g2_table st) sim i j)) \<le> 0
          \<longrightarrow> get2 (m_table st) i j = 0 \<and> get2 (trace_table st) i j AND 7 = 0)
       \<and> (max (left_score st (m_table st) go tp i j) (left_score st (g1_table st) ge tp i j) \<le> 0
          \<longrightarrow> get2 (g1_table st) i j = 0 \<and> get2 (trace_table st) i j AND 24 = 0)
       \<and> (max (top_score st (m_table st) go tp i j) (top_score st (g2_table st) ge tp i j) \<le> 0
          \<longrightarrow> get2 (g2_table st) i j = 0 \<and> get2 (trace_table st) i j AND 96 = 0)
       \<and> get2 (trace_table st) i j AND 7 = (if snd rm \<le> 0 then 0 else fst rm)
       \<and> get2 (trace_table st) i j AND 24 = (if snd r1 \<le> 0 then 0 else fst r1)
       \<and> get2 (trace_table st) i j AND 96 = (if snd r2 \<le> 0 then 0 else fst r2)
       \<and> (trace_ends 1 (get2 (trace_table st) i j) \<longleftrightarrow> snd rm \<le> 0)
       \<and> (trace_ends 2 (get2 (trace_table st) i j) \<longleftrightarrow> snd r1 \<le> 0)
       \<and> (trace_ends 3 (get2 (trace_table st) i j) \<longleftrightarrow> snd r2 \<le> 0))"
  unfolding tabs_def r_def st_def sim_def rm_def r1_def r2_def
  by (rule conjI, rule local_clamp_general [OF ij], rule local_clamp_affine [OF ij])

theorem local_clamp_witness:
  "get2 (snd (general_tables \<lparr> get_alphabet = ''A'', code = [0] \<rparr> \<lparr> get_alphabet = ''A'', code = [0] \<rparr>
          \<lparr> get_alphabet1 = ''A'', get_alphabet2 = ''A'', score_matrix = [[- 5]] \<rparr> (- 1) True True)) 1 1 = 0
   \<and> get2 (fst (general_tables \<lparr> get_alphabet = ''A'', code = [0] \<rparr> \<lparr> get_alphabet = ''A'', code = [0] \<rparr>
          \<lparr> get_alphabet1 = ''A'', get_alphabet2 = ''A'', score_matrix = [[- 5]] \<rparr> (- 1) True True)) 1 1 = 0
   \<and> get2 (m_table (affine_tables \<lparr> get_alphabet = ''A'', code = [0] \<rparr> \<lparr> get_alphabet = ''A'', code = [0] \<rparr>
          \<lparr> get_alphabet1 = ''A'', get_alphabet2 = ''A'', score_matrix = [[- 5]] \<rparr> (- 2) (- 1) True True)) 1 1 = 0
   \<and> get2 (trace_table (affine_tables \<lparr> get_alphabet = ''A'', code = [0] \<rparr> \<lparr> get_alphabet = ''A'', code = [0] \<rparr>
          \<lparr> get_alphabet1 = ''A'', get_alphabet2 = ''A'', score_matrix = [[- 5]] \<rparr> (- 2) (- 1) True True)) 1 1
       AND 7 = 0"
proof -
  define s where "s = \<lparr> get_alphabet = ''A'', code = [0::nat] \<rparr>"
  define M where "M = \<lparr> get_alphabet1 = ''A'', get_alphabet2 = ''A'', score_matrix = [[- 5 :: int]] \<rparr>"
  have l: "1 \<le> (1::nat)" "(1::nat) \<le> length (code s)" by (simp_all add: s_def)
  have a: "max (from_diag (code s) (code s) (score_matrix M) (snd (general_tables s s M (- 1) True True)) 1 1)
            (max (from_left (snd (general_tables s s M (- 1) True True)) (- 1) True 1 1)
               (from_top (snd (general_tables s s M (- 1) True True)) (- 1) True 1 1)) \<le> 0"
    unfolding s_def M_def by code_simp
  have b: "max (diag_score (m_table (affine_tables s s M (- 2) (- 1) True True))
                 (similarity (code s) (code s) (score_matrix M) 1 1) 1 1)
            (max (diag_score (g1_table (affine_tables s s M (- 2) (- 1) True True))
                    (similarity (code s) (code s) (score_matrix M) 1 1) 1 1)
               (diag_score (g2_table (affine_tables s s M (- 2) (- 1) True True))
                    (similarity (code s) (code s) (score_matrix M) 1 1) 1 1)) \<le> 0"
    unfolding s_def M_def by code_simp
  from local_clamp [OF l l, of M "- 1" True "- 2" "- 1"] a b
  show ?thesis unfolding s_def M_def by blast
qed


subsection \<open>Terminal gaps without penalty\<close>





subsection \<open>The score of the alignments\<close>

text \<open>
  Claim C5. The alignments returned by \<open>align_optimal\<close> should carry the maximum
  attainable score. For the sequences \<open>[0]\<close> and \<open>[0]\<close>, the matrix \<open>[[-5]]\<close> and the
  general penalty \<open>-1\<close> (global, with terminal penalty), both returned alignments pair
  each symbol with a gap and carry the score \<open>-5\<close>; two gaps cost \<open>-2\<close>.
\<close>

theorem align_optimal_score_below_optimum:
  "map_sum id (map (\<lambda>a. (trace a, score a)))
     (align_optimal \<lparr> get_alphabet = ''A'', code = [0] \<rparr> \<lparr> get_alphabet = ''A'', code = [0] \<rparr>
        \<lparr> get_alphabet1 = ''A'', get_alphabet2 = ''A'', score_matrix = [[- 5]] \<rparr>
        (GapInt (- 1)) True False)
   = Inr [([(- 1, 0), (0, - 1)], - 5), ([(0, - 1), (- 1, 0)], - 5)]
   \<and> trace_score [0] [0] [[- 5]] (- 1) [(- 1, 0), (0, - 1)] = - 2"
  by code_simp


subsection \<open>The walks of the traceback\<close>

lemma written_Nil: "written tr pos [] = tr"
  by (simp add: written_def)

lemma written_Cons:
  "pos < length tr \<Longrightarrow> written (tr[pos := x]) (Suc pos) xs = written tr pos (x # xs)"
  by (simp add: written_def take_Suc_conv_app_nth)

lemma emitted_end: "emitted tr pos c (trim tr)"
  unfolding emitted_def
  by (rule exI [of _ "[]"]) (simp add: written_Nil)

lemma emitted_step:
  assumes e: "emitted (tr[pos := dec c]) (Suc pos) d t"
    and pos: "pos < length tr" and ok: "cell_ok c" and st: "cell_step c d"
  shows "emitted tr pos c t"
proof -
  from e obtain cells where w: "walk cells" and h: "cells \<noteq> [] \<longrightarrow> hd cells = d"
    and t: "t = trim (written (tr[pos := dec c]) (Suc pos) (map dec cells))"
    unfolding emitted_def by auto
  have "walk (c # cells)"
  proof (cases cells)
    case Nil
    with ok show ?thesis by simp
  next
    case (Cons d' cs)
    with h have "d' = d" by simp
    with Cons w ok st show ?thesis by simp
  qed
  moreover have "t = trim (written tr pos (map dec (c # cells)))"
    using t pos by (simp add: written_Cons)
  ultimately show ?thesis
    unfolding emitted_def by (intro exI [of _ "c # cells"]) simp
qed

lemma next_steps_step:
  "n \<in> set (next_steps s v i j) \<Longrightarrow> cell_step (i, j) (fst n, fst (snd n))"
  by (auto simp: next_steps_def cell_step_def Let_def split: if_splits)

lemma trace_table_at_in_range:
  assumes "rect R C tt" "0 \<le> i" "i < int R" "0 \<le> j" "j < int C"
  shows "trace_table_at tt i j = Inr (get2 tt (nat i) (nat j))"
proof -
  from assms have "0 < R" by auto
  with assms(1) have "shape0 tt = R" "shape1 tt = C"
    by (simp_all add: rect_shape0 rect_shape1)
  with assms(2-) show ?thesis
    by (simp add: trace_table_at_def py_index_def)
qed


lemma follow_trace_Inr:
  assumes f: "follow_trace tt i j pos tr s = Inr ts"
    and at: "trace_table_at tt i j = Inr v" and ne: "\<not> trace_ends s v"
  obtains nxt rest bs ms where "\<not> length tr \<le> pos" "next_steps s v i j = nxt # rest"
    "follow_branches tt (tl (next_steps s v i j)) (Suc pos) (tr[pos := (i - 1, j - 1)]) = Inr bs"
    "follow_trace tt (fst nxt) (fst (snd nxt)) (Suc pos) (tr[pos := (i - 1, j - 1)]) (snd (snd nxt))
       = Inr ms"
    "ts = bs @ ms"
proof -
  define B where "B = follow_branches tt (tl (next_steps s v i j)) (Suc pos) (tr[pos := (i - 1, j - 1)])"
  define N where "N = next_steps s v i j"
  have eq: "(if length tr \<le> pos then Inl IndexError
             else (case B of Inl e \<Rightarrow> Inl e
                   | Inr branches \<Rightarrow>
                       (case N of [] \<Rightarrow> Inl IndexError
                        | nxt # _ \<Rightarrow>
                            (case follow_trace tt (fst nxt) (fst (snd nxt)) (Suc pos)
                                    (tr[pos := (i - 1, j - 1)]) (snd (snd nxt)) of
                               Inl e \<Rightarrow> Inl e
                             | Inr main \<Rightarrow> Inr (branches @ main))))) = Inr ts"
    using f unfolding B_def N_def by (subst (asm) follow_trace.simps) (simp add: at ne)
  then have le: "\<not> length tr \<le> pos" by (cases "length tr \<le> pos") simp_all
  from eq le obtain bs where bs: "B = Inr bs" by (cases B) simp_all
  from eq le bs obtain nxt rest where nr: "N = nxt # rest" by (cases N) simp_all
  from eq le bs nr obtain ms where ms: "follow_trace tt (fst nxt) (fst (snd nxt)) (Suc pos)
         (tr[pos := (i - 1, j - 1)]) (snd (snd nxt)) = Inr ms"
    by (cases "follow_trace tt (fst nxt) (fst (snd nxt)) (Suc pos)
         (tr[pos := (i - 1, j - 1)]) (snd (snd nxt))") simp_all
  from eq le bs nr ms have "ts = bs @ ms" by simp
  with le nr bs ms that show thesis unfolding B_def N_def by blast
qed

lemma follow_trace_end:
  assumes "follow_trace tt i j pos tr s = Inr ts"
    and "trace_table_at tt i j = Inr v" and "trace_ends s v"
  shows "ts = [trim tr]"
  using assms by (subst (asm) follow_trace.simps) simp

lemma follow_walks:
  shows "follow_trace tt i j pos tr s = Inr ts \<Longrightarrow> rect R C tt \<Longrightarrow> safe_table tt R C S
         \<Longrightarrow> 0 \<le> i \<Longrightarrow> i < int R \<Longrightarrow> 0 \<le> j \<Longrightarrow> j < int C
         \<Longrightarrow> s \<in> S \<Longrightarrow> \<forall>t \<in> set ts. emitted tr pos (i, j) t"
    and "follow_branches tt nxts pos tr = Inr ts \<Longrightarrow> rect R C tt \<Longrightarrow> safe_table tt R C S
         \<Longrightarrow> \<forall>n \<in> set nxts. 0 \<le> fst n \<and> fst n < int R \<and> 0 \<le> fst (snd n) \<and> fst (snd n) < int C
                \<and> snd (snd n) \<in> S
         \<Longrightarrow> \<forall>t \<in> set ts. \<exists>n \<in> set nxts. emitted tr pos (fst n, fst (snd n)) t"
proof (induction tt i j pos tr s and tt nxts pos tr arbitrary: ts and ts
    rule: follow_trace_follow_branches.induct)
  case (1 tt i j pos tr state)
  note rng = \<open>0 \<le> i\<close> \<open>i < int R\<close> \<open>0 \<le> j\<close> \<open>j < int C\<close>
  note r = \<open>rect R C tt\<close> and safe = \<open>safe_table tt R C S\<close>
  define v where "v = get2 tt (nat i) (nat j)"
  have at: "trace_table_at tt i j = Inr v"
    unfolding v_def using r rng by (rule trace_table_at_in_range)
  show ?case
  proof (cases "trace_ends state v")
    case True
    with "1.prems"(1) at have "ts = [trim tr]"
      by (intro follow_trace_end)
    then show ?thesis by (simp add: emitted_end)
  next
    case False
    have ab: "nat i < R" "nat j < C" and ii: "int (nat i) = i" "int (nat j) = j"
      using rng by auto
    from safe have "(nat i \<noteq> 0 \<or> nat j \<noteq> 0)
        \<and> (\<forall>n \<in> set (next_steps state (get2 tt (nat i) (nat j)) (int (nat i)) (int (nat j))).
              0 \<le> fst n \<and> 0 \<le> fst (snd n) \<and> snd (snd n) \<in> S)"
      unfolding safe_table_def using ab \<open>state \<in> S\<close> False unfolding v_def by blast
    then have nz: "nat i \<noteq> 0 \<or> nat j \<noteq> 0"
      and nx: "\<forall>n \<in> set (next_steps state v i j). 0 \<le> fst n \<and> 0 \<le> fst (snd n) \<and> snd (snd n) \<in> S"
      unfolding ii v_def by blast+
    have ok: "cell_ok (i, j)" using nz rng by (auto simp: cell_ok_def)
    from follow_trace_Inr [OF "1.prems"(1) at False]
    obtain nxt rest bs ms where le: "\<not> length tr \<le> pos"
      and nr: "next_steps state v i j = nxt # rest"
      and bs: "follow_branches tt (tl (next_steps state v i j)) (Suc pos)
          (tr[pos := (i - 1, j - 1)]) = Inr bs"
      and ms: "follow_trace tt (fst nxt) (fst (snd nxt)) (Suc pos)
          (tr[pos := (i - 1, j - 1)]) (snd (snd nxt)) = Inr ms"
      and ts: "ts = bs @ ms"
      by blast
    have inr: "0 \<le> fst n \<and> fst n < int R \<and> 0 \<le> fst (snd n) \<and> fst (snd n) < int C \<and> snd (snd n) \<in> S"
      if "n \<in> set (next_steps state v i j)" for n
      using nx that next_steps_step [OF that] rng by (auto simp: cell_step_def)
    have up: "emitted tr pos (i, j) t"
      if "n \<in> set (next_steps state v i j)"
        "emitted (tr[pos := (i - 1, j - 1)]) (Suc pos) (fst n, fst (snd n)) t" for n t
    proof (rule emitted_step [where d = "(fst n, fst (snd n))"])
      show "emitted (tr[pos := dec (i, j)]) (Suc pos) (fst n, fst (snd n)) t"
        using that(2) by (simp add: dec_def)
      show "pos < length tr" using le by simp
      show "cell_ok (i, j)" by (rule ok)
      show "cell_step (i, j) (fst n, fst (snd n))" using that(1) by (rule next_steps_step)
    qed
    have b: "\<forall>t \<in> set bs. \<exists>n \<in> set (tl (next_steps state v i j)).
               emitted (tr[pos := (i - 1, j - 1)]) (Suc pos) (fst n, fst (snd n)) t"
      using "1.IH"(1) [OF at False le bs r safe] inr nr by simp
    have m: "\<forall>t \<in> set ms. emitted (tr[pos := (i - 1, j - 1)]) (Suc pos) (fst nxt, fst (snd nxt)) t"
      using "1.IH"(2) [OF at False le bs nr ms r safe] inr [of nxt] nr by simp
    show ?thesis
    proof
      fix t assume "t \<in> set ts"
      then consider "t \<in> set bs" | "t \<in> set ms" unfolding ts by auto
      then show "emitted tr pos (i, j) t"
      proof cases
        case 1
        with b obtain n where "n \<in> set (tl (next_steps state v i j))"
          "emitted (tr[pos := (i - 1, j - 1)]) (Suc pos) (fst n, fst (snd n)) t" by blast
        with nr up [of n t] show ?thesis by simp
      next
        case 2
        with m nr up [of nxt t] show ?thesis by simp
      qed
    qed
  qed
next
  case (2 tt pos tr)
  then show ?case by simp
next
  case (3 tt nxt rest pos tr)
  from "3.prems"(1) obtain a b where a: "follow_trace tt (fst nxt) (fst (snd nxt)) pos tr (snd (snd nxt)) = Inr a"
    and b: "follow_branches tt rest pos tr = Inr b" and ts: "ts = a @ b"
    by (auto split: sum.splits)
  from "3.IH"(1) [OF a "3.prems"(2,3)] "3.prems"(4)
  have 1: "\<forall>t \<in> set a. emitted tr pos (fst nxt, fst (snd nxt)) t" by simp
  from "3.IH"(2) [OF a b "3.prems"(2,3)] "3.prems"(4)
  have 2: "\<forall>t \<in> set b. \<exists>n \<in> set rest. emitted tr pos (fst n, fst (snd n)) t" by simp
  from 1 2 show ?case unfolding ts by auto
qed

subsection \<open>The replacement of the gaps\<close>

lemma walk_nth:
  "walk cells \<Longrightarrow>
     (\<forall>k < length cells. cell_ok (cells ! k))
     \<and> (\<forall>k. Suc k < length cells \<longrightarrow> cell_step (cells ! k) (cells ! Suc k))"
proof (induction cells rule: walk.induct)
  case 1
  show ?case by simp
next
  case (2 c)
  then show ?case by simp
next
  case (3 c d cs)
  then have ok: "cell_ok c" and st: "cell_step c d"
    and ih: "\<forall>k < length (d # cs). cell_ok ((d # cs) ! k)"
      "\<forall>k. Suc k < length (d # cs) \<longrightarrow> cell_step ((d # cs) ! k) ((d # cs) ! Suc k)"
    by simp_all
  have "cell_ok ((c # d # cs) ! k)" if "k < length (c # d # cs)" for k
    using that ok ih(1) by (cases k) auto
  moreover have "cell_step ((c # d # cs) ! k) ((c # d # cs) ! Suc k)"
    if "Suc k < length (c # d # cs)" for k
    using that st ih(2) by (cases k) auto
  ultimately show ?case by blast
qed

lemma steps01_mono:
  assumes "steps01 xs" "b < length xs"
  shows "a \<le> b \<Longrightarrow> xs ! a \<le> xs ! b"
  using assms(2)
proof (induction b)
  case 0
  then show ?case by simp
next
  case (Suc b)
  show ?case
  proof (cases "a = Suc b")
    case True
    then show ?thesis by simp
  next
    case False
    with Suc have "xs ! a \<le> xs ! b" by simp
    moreover from assms(1) Suc.prems have "xs ! b \<le> xs ! Suc b"
      unfolding steps01_def by (metis add.commute le_add_same_cancel2 order_refl zero_le_one)
    ultimately show ?thesis by simp
  qed
qed

lemma unique_index_iff:
  "k \<in> set (unique_index xs) \<longleftrightarrow> k < length xs \<and> xs ! k \<notin> set (take k xs)"
  by (auto simp: unique_index_def)

lemma first_occurrence:
  assumes s: "steps01 xs" and k: "Suc k < length xs"
  shows "xs ! Suc k \<in> set (take (Suc k) xs) \<longleftrightarrow> xs ! Suc k = xs ! k"
proof
  assume "xs ! Suc k \<in> set (take (Suc k) xs)"
  then obtain a where a: "a < Suc k" "xs ! a = xs ! Suc k"
    using k by (auto simp: in_set_conv_nth)
  from steps01_mono [OF s, of k a] a k have "xs ! a \<le> xs ! k" by simp
  moreover from s k have "xs ! Suc k = xs ! k \<or> xs ! Suc k = xs ! k + 1"
    unfolding steps01_def by blast
  ultimately show "xs ! Suc k = xs ! k" using a(2) by auto
next
  assume "xs ! Suc k = xs ! k"
  moreover have "xs ! k \<in> set (take (Suc k) xs)"
    using k by (simp add: take_Suc_conv_app_nth)
  ultimately show "xs ! Suc k \<in> set (take (Suc k) xs)" by simp
qed

lemma firsts_nth:
  "k < length xs \<Longrightarrow> firsts xs ! k = (if xs ! k \<notin> set (take k xs) then xs ! k else - 1)"
  by (simp add: firsts_def unique_index_iff)

lemma mark_length: "length (mark p xs) = length xs"
  by (induction xs arbitrary: p) simp_all

lemma mark_nth:
  "k < length xs \<Longrightarrow> mark p xs ! k = (if xs ! k = (p # xs) ! k then - 1 else xs ! k)"
proof (induction xs arbitrary: p k)
  case Nil
  then show ?case by simp
next
  case (Cons x xs)
  then show ?case by (cases k) simp_all
qed

lemma firsts_mark:
  assumes "steps01 (x # xs)"
  shows "firsts (x # xs) = x # mark x xs"
proof (rule nth_equalityI)
  show "length (firsts (x # xs)) = length (x # mark x xs)"
    by (simp add: firsts_def mark_length)
  fix k assume "k < length (firsts (x # xs))"
  then have k: "k < Suc (length xs)" by (simp add: firsts_def)
  show "firsts (x # xs) ! k = (x # mark x xs) ! k"
  proof (cases k)
    case 0
    then show ?thesis
      using firsts_nth [of 0 "x # xs"] by simp
  next
    case (Suc k')
    with k have k': "Suc k' < length (x # xs)" "k' < length xs" by simp_all
    have "firsts (x # xs) ! Suc k'
        = (if (x # xs) ! Suc k' \<notin> set (take (Suc k') (x # xs)) then (x # xs) ! Suc k' else - 1)"
      using k'(1) by (rule firsts_nth)
    also have "\<dots> = (if (x # xs) ! Suc k' = (x # xs) ! k' then - 1 else (x # xs) ! Suc k')"
      using first_occurrence [OF assms k'(1)] by auto
    also have "\<dots> = mark x xs ! k'"
      using mark_nth [OF k'(2), of x] by simp
    finally show ?thesis unfolding Suc by simp
  qed
qed

lemma steps01_Cons:
  "steps01 (x # y # r) \<Longrightarrow> (y = x \<or> y = x + 1) \<and> steps01 (y # r)"
  unfolding steps01_def
proof (intro conjI allI impI)
  assume a: "\<forall>k. Suc k < length (x # y # r) \<longrightarrow>
       (x # y # r) ! Suc k = (x # y # r) ! k \<or> (x # y # r) ! Suc k = (x # y # r) ! k + 1"
  from a [rule_format, of 0] show "y = x \<or> y = x + 1" by simp
  fix k assume "Suc k < length (y # r)"
  with a [rule_format, of "Suc k"]
  show "(y # r) ! Suc k = (y # r) ! k \<or> (y # r) ! Suc k = (y # r) ! k + 1" by simp
qed

lemma consecutive_tl: "consecutive (x # xs) \<Longrightarrow> consecutive xs"
  by (cases xs) simp_all

lemma consecutive_mark:
  "steps01 (x # r) \<Longrightarrow> - 1 \<le> x \<Longrightarrow> consecutive (x # non_gaps (mark x r))"
proof (induction r arbitrary: x)
  case Nil
  then show ?case by (simp add: non_gaps_def)
next
  case (Cons y r)
  from steps01_Cons [OF Cons.prems(1)] have y: "y = x \<or> y = x + 1" and s: "steps01 (y # r)"
    by simp_all
  from y show ?case
  proof
    assume "y = x"
    with Cons.IH [OF s] Cons.prems(2) show ?thesis by (simp add: non_gaps_def)
  next
    assume y: "y = x + 1"
    with Cons.prems(2) have "- 1 \<le> y" "y \<noteq> - 1" "y \<noteq> x" by simp_all
    with Cons.IH [OF s] y show ?thesis by (simp add: non_gaps_def)
  qed
qed

lemma consecutive_firsts:
  assumes "steps01 xs" "\<forall>x \<in> set xs. - 1 \<le> x"
  shows "consecutive (non_gaps (firsts xs))"
proof (cases xs)
  case Nil
  then show ?thesis by (simp add: firsts_def non_gaps_def)
next
  case (Cons x r)
  with assms have "consecutive (x # non_gaps (mark x r))"
    by (intro consecutive_mark) simp_all
  then have "consecutive (non_gaps (x # mark x r))"
    by (cases "x = - 1") (simp_all add: non_gaps_def consecutive_tl)
  with assms(1) show ?thesis unfolding Cons by (simp add: firsts_mark)
qed

lemma replace_gaps_zip:
  "replace_gaps tr0 = zip (firsts (map fst (rev tr0))) (firsts (map snd (rev tr0)))"
proof -
  define tr where "tr = rev tr0"
  have "zip (firsts (map fst tr)) (firsts (map snd tr))
      = map (\<lambda>k. (if k \<in> set (unique_index (map fst tr)) then map fst tr ! k else - 1,
                   if k \<in> set (unique_index (map snd tr)) then map snd tr ! k else - 1))
          [0..<length tr]"
    by (simp add: firsts_def zip_map_map zip_same_conv_map)
  also have "\<dots> = map (\<lambda>k. (if k \<in> set (unique_index (map fst tr)) then fst (tr ! k) else - 1,
                   if k \<in> set (unique_index (map snd tr)) then snd (tr ! k) else - 1))
          [0..<length tr]"
    by (rule map_cong) simp_all
  finally show ?thesis
    unfolding replace_gaps_def tr_def by (simp add: Let_def)
qed

lemma replace_gaps_columns:
  "map fst (replace_gaps tr0) = firsts (map fst (rev tr0))"
  "map snd (replace_gaps tr0) = firsts (map snd (rev tr0))"
  unfolding replace_gaps_zip by (simp_all add: firsts_def)

lemma walk_forward:
  assumes w: "walk cells"
  defines "tr \<equiv> rev (map dec cells)"
  shows "steps01 (map fst tr)" and "steps01 (map snd tr)"
    and "\<forall>k < length tr. - 1 \<le> fst (tr ! k) \<and> - 1 \<le> snd (tr ! k) \<and> tr ! k \<noteq> (- 1, - 1)"
    and "\<forall>k. Suc k < length tr \<longrightarrow> fst (tr ! Suc k) \<noteq> fst (tr ! k) \<or> snd (tr ! Suc k) \<noteq> snd (tr ! k)"
proof -
  from walk_nth [OF w] have ok: "\<And>k. k < length cells \<Longrightarrow> cell_ok (cells ! k)"
    and st: "\<And>k. Suc k < length cells \<Longrightarrow> cell_step (cells ! k) (cells ! Suc k)"
    by blast+
  have len: "length tr = length cells" by (simp add: tr_def)
  have nth: "tr ! k = dec (cells ! (length cells - Suc k))" if "k < length cells" for k
    using that by (simp add: tr_def rev_nth)
  have step: "cell_step (cells ! (length cells - Suc (Suc k))) (cells ! (length cells - Suc k))"
    if "Suc k < length cells" for k
  proof -
    from that have "Suc (length cells - Suc (Suc k)) = length cells - Suc k" by simp
    with st [of "length cells - Suc (Suc k)"] that show ?thesis by simp
  qed
  have rel: "(fst (tr ! Suc k) = fst (tr ! k) + 1 \<and> snd (tr ! Suc k) = snd (tr ! k) + 1)
           \<or> (fst (tr ! Suc k) = fst (tr ! k) \<and> snd (tr ! Suc k) = snd (tr ! k) + 1)
           \<or> (fst (tr ! Suc k) = fst (tr ! k) + 1 \<and> snd (tr ! Suc k) = snd (tr ! k))"
    if "Suc k < length cells" for k
    using step [OF that] nth [of k] nth [of "Suc k"] that
    by (auto simp: dec_def cell_step_def prod_eq_iff)
  show "steps01 (map fst tr)"
    unfolding steps01_def
  proof (intro allI impI)
    fix k assume "Suc k < length (map fst tr)"
    then have "Suc k < length cells" using len by simp
    from rel [OF this] this len
    show "map fst tr ! Suc k = map fst tr ! k \<or> map fst tr ! Suc k = map fst tr ! k + 1"
      by auto
  qed
  show "steps01 (map snd tr)"
    unfolding steps01_def
  proof (intro allI impI)
    fix k assume "Suc k < length (map snd tr)"
    then have "Suc k < length cells" using len by simp
    from rel [OF this] this len
    show "map snd tr ! Suc k = map snd tr ! k \<or> map snd tr ! Suc k = map snd tr ! k + 1"
      by auto
  qed
  show "\<forall>k < length tr. - 1 \<le> fst (tr ! k) \<and> - 1 \<le> snd (tr ! k) \<and> tr ! k \<noteq> (- 1, - 1)"
  proof (intro allI impI)
    fix k assume "k < length tr"
    then have k: "k < length cells" using len by simp
    from ok [of "length cells - Suc k"] k have "cell_ok (cells ! (length cells - Suc k))" by simp
    then show "- 1 \<le> fst (tr ! k) \<and> - 1 \<le> snd (tr ! k) \<and> tr ! k \<noteq> (- 1, - 1)"
      unfolding nth [OF k] by (auto simp: cell_ok_def dec_def prod_eq_iff)
  qed
  show "\<forall>k. Suc k < length tr \<longrightarrow> fst (tr ! Suc k) \<noteq> fst (tr ! k) \<or> snd (tr ! Suc k) \<noteq> snd (tr ! k)"
  proof (intro allI impI)
    fix k assume "Suc k < length tr"
    then have "Suc k < length cells" using len by simp
    from rel [OF this]
    show "fst (tr ! Suc k) \<noteq> fst (tr ! k) \<or> snd (tr ! Suc k) \<noteq> snd (tr ! k)" by auto
  qed
qed

lemma walk_valid:
  assumes w: "walk cells"
  shows "valid_trace (replace_gaps (map dec cells))"
proof -
  define tr where "tr = rev (map dec cells)"
  define xs where "xs = map fst tr"
  define zs where "zs = map snd tr"
  note f = walk_forward [OF w, folded tr_def]
  have sx: "steps01 xs" and sz: "steps01 zs" using f(1,2) by (simp_all add: xs_def zs_def)
  have n: "length xs = length tr" "length zs = length tr" by (simp_all add: xs_def zs_def)
  have lo: "\<forall>x \<in> set xs. - 1 \<le> x" "\<forall>z \<in> set zs. - 1 \<le> z"
  proof -
    have "- 1 \<le> fst r \<and> - 1 \<le> snd r" if "r \<in> set tr" for r
    proof -
      from that obtain k where "k < length tr" "tr ! k = r" by (auto simp: in_set_conv_nth)
      with f(3) show ?thesis by auto
    qed
    then show "\<forall>x \<in> set xs. - 1 \<le> x" "\<forall>z \<in> set zs. - 1 \<le> z"
      by (auto simp: xs_def zs_def)
  qed
  have c1: "consecutive (non_gaps (map fst (replace_gaps (map dec cells))))"
    unfolding replace_gaps_columns tr_def [symmetric] xs_def [symmetric]
    using sx lo(1) by (rule consecutive_firsts)
  have c2: "consecutive (non_gaps (map snd (replace_gaps (map dec cells))))"
    unfolding replace_gaps_columns tr_def [symmetric] zs_def [symmetric]
    using sz lo(2) by (rule consecutive_firsts)
  have rows: "fst r \<noteq> - 1 \<or> snd r \<noteq> - 1" if "r \<in> set (replace_gaps (map dec cells))" for r
  proof -
    from that have "r \<in> set (zip (firsts xs) (firsts zs))"
      unfolding replace_gaps_zip tr_def [symmetric] xs_def zs_def .
    then obtain k where k: "k < length tr" and r: "r = (firsts xs ! k, firsts zs ! k)"
      using n by (auto simp: in_set_conv_nth firsts_def)
    have xk: "xs ! k = fst (tr ! k)" and zk: "zs ! k = snd (tr ! k)"
      using k by (simp_all add: xs_def zs_def)
    show ?thesis
    proof (cases k)
      case 0
      with k n have "firsts xs ! k = xs ! 0" "firsts zs ! k = zs ! 0"
        by (simp_all add: firsts_nth)
      with f(3) k 0 xk zk show ?thesis unfolding r by (auto simp: prod_eq_iff)
    next
      case (Suc k')
      with k have k': "Suc k' < length tr" "k' < length tr" by simp_all
      from f(4) k'(1) have "xs ! Suc k' \<noteq> xs ! k' \<or> zs ! Suc k' \<noteq> zs ! k'"
        using k' by (simp add: xs_def zs_def)
      then show ?thesis
      proof
        assume d: "xs ! Suc k' \<noteq> xs ! k'"
        with first_occurrence [OF sx, of k'] k'(1) n
        have "firsts xs ! Suc k' = xs ! Suc k'" by (simp add: firsts_nth)
        moreover from sx d k'(1) n have "xs ! Suc k' = xs ! k' + 1"
          unfolding steps01_def by auto
        moreover from f(3) k'(2) have "- 1 \<le> xs ! k'" by (simp add: xs_def)
        ultimately show ?thesis unfolding r Suc by simp
      next
        assume d: "zs ! Suc k' \<noteq> zs ! k'"
        with first_occurrence [OF sz, of k'] k'(1) n
        have "firsts zs ! Suc k' = zs ! Suc k'" by (simp add: firsts_nth)
        moreover from sz d k'(1) n have "zs ! Suc k' = zs ! k' + 1"
          unfolding steps01_def by auto
        moreover from f(3) k'(2) have "- 1 \<le> zs ! k'" by (simp add: zs_def)
        ultimately show ?thesis unfolding r Suc by simp
      qed
    qed
  qed
  from c1 c2 rows show ?thesis unfolding valid_trace_def by blast
qed

subsection \<open>The traces of \<open>align_optimal\<close>\<close>

lemma walk_ok: "walk cells \<Longrightarrow> c \<in> set cells \<Longrightarrow> cell_ok c"
  using walk_nth [of cells] by (auto simp: in_set_conv_nth)

lemma trim_append: "trim (xs @ ys) = trim xs @ trim ys"
  by (simp add: trim_def)

lemma trim_replicate: "trim (replicate k (- 1, - 1)) = []"
  by (simp add: trim_def)

lemma trim_walk: "walk cells \<Longrightarrow> trim (map dec cells) = map dec cells"
  unfolding trim_def
  by (rule filter_True) (auto dest!: walk_ok simp: cell_ok_def dec_def prod_eq_iff)

lemma trim_written:
  "walk cells \<Longrightarrow> trim (written (replicate k (- 1, - 1)) 0 (map dec cells)) = map dec cells"
  by (simp add: written_def trim_append trim_walk trim_replicate)

lemma follow_all_walks:
  "follow_all tt starts = Inr ts \<Longrightarrow> rect R C tt \<Longrightarrow> safe_table tt R C S
   \<Longrightarrow> \<forall>st \<in> set starts. fst st < R \<and> fst (snd st) < C \<and> snd (snd st) \<in> S
   \<Longrightarrow> \<forall>t \<in> set ts. \<exists>cells. walk cells \<and> t = map dec cells"
proof (induction tt starts arbitrary: ts rule: follow_all.induct)
  case (1 tt)
  then show ?case by simp
next
  case (2 tt i j s rest)
  define F where "F = follow_trace tt (int i) (int j) 0 (replicate (i + 1 + j + 1) (- 1, - 1)) s"
  have eq: "(case F of Inl e \<Rightarrow> Inl e
             | Inr ts \<Rightarrow> (case follow_all tt rest of Inl e \<Rightarrow> Inl e | Inr ts' \<Rightarrow> Inr (ts @ ts')))
            = Inr ts"
    using "2.prems"(1) unfolding F_def by simp
  then obtain a where a: "F = Inr a" by (cases F) simp_all
  with eq obtain b where b: "follow_all tt rest = Inr b" by (cases "follow_all tt rest") simp_all
  from eq a b have ts: "ts = a @ b" by simp
  from "2.prems"(4) have rng: "0 \<le> int i" "int i < int R" "0 \<le> int j" "int j < int C" "s \<in> S"
    by simp_all
  have "\<forall>t \<in> set a. emitted (replicate (i + 1 + j + 1) (- 1, - 1)) 0 (int i, int j) t"
    using a [unfolded F_def] "2.prems"(2,3) rng by (rule follow_walks(1))
  have 1: "\<exists>cells. walk cells \<and> t = map dec cells" if "t \<in> set a" for t
  proof -
    from that \<open>\<forall>t \<in> set a. emitted (replicate (i + 1 + j + 1) (- 1, - 1)) 0 (int i, int j) t\<close>
    obtain cells where "walk cells"
      "t = trim (written (replicate (i + 1 + j + 1) (- 1, - 1)) 0 (map dec cells))"
      unfolding emitted_def by blast
    then show ?thesis using trim_written [of cells "i + 1 + j + 1"] by auto
  qed
  have "\<forall>st \<in> set rest. fst st < R \<and> fst (snd st) < C \<and> snd (snd st) \<in> S"
    using "2.prems"(4) by simp
  from "2.IH" [OF a [unfolded F_def] b "2.prems"(2,3) this]
  have 2: "\<forall>t \<in> set b. \<exists>cells. walk cells \<and> t = map dec cells" .
  from 1 2 show ?case unfolding ts by auto
qed

lemma traceback_valid:
  assumes "traceback seq1 seq2 tt start = Inr alis" "rect R C tt" "safe_table tt R C S"
    and "\<forall>st \<in> set (snd start). fst st < R \<and> fst (snd st) < C \<and> snd (snd st) \<in> S"
    and "a \<in> set alis"
  shows "valid_trace (trace a)"
proof -
  from assms(1) obtain ts where ts: "follow_all tt (snd start) = Inr ts"
    and alis: "alis = map (\<lambda>tr. \<lparr> sequences = (seq1, seq2), trace = replace_gaps tr,
                           score = fst start \<rparr>) ts"
    by (auto simp: traceback_def split: sum.splits)
  from assms(5) alis obtain t where t: "t \<in> set ts" "trace a = replace_gaps t" by auto
  from follow_all_walks [OF ts assms(2,3,4)] t(1) obtain cells where
    "walk cells" "t = map dec cells" by blast
  with t(2) show ?thesis by (simp add: walk_valid)
qed

lemma bits_0 [simp]:
  "(2 :: uint8) AND 1 = 0" "(2 :: uint8) AND 4 = 0" "(4 :: uint8) AND 1 = 0" "(4 :: uint8) AND 2 = 0"
  "(16 :: uint8) AND 7 = 0" "(64 :: uint8) AND 7 = 0" "(64 :: uint8) AND 24 = 0" "(16 :: uint8) AND 96 = 0"
  by simp_all

lemma group_bits [simp]:
  fixes v :: uint8
  shows "v AND 24 AND 1 = 0" "v AND 24 AND 2 = 0" "v AND 24 AND 4 = 0"
    "v AND 24 AND 32 = 0" "v AND 24 AND 64 = 0"
    "v AND 96 AND 1 = 0" "v AND 96 AND 2 = 0" "v AND 96 AND 4 = 0"
    "v AND 96 AND 8 = 0" "v AND 96 AND 16 = 0"
    "v AND 7 AND 8 = 0" "v AND 7 AND 16 = 0" "v AND 7 AND 32 = 0" "v AND 7 AND 64 = 0"
  by (simp_all add: and.assoc)

lemma safe_table_general:
  assumes b: "\<And>a b. a < R \<Longrightarrow> b < C \<Longrightarrow> a = 0 \<or> b = 0 \<Longrightarrow>
      get2 tt a b = (if loc then 0 else if a = 0 \<and> 1 \<le> b then 2 else if b = 0 \<and> 1 \<le> a then 4 else 0)"
  shows "safe_table tt R C {0}"
  unfolding safe_table_def
proof (intro allI impI)
  fix a b s
  assume a: "a < R" "b < C" and s: "s \<in> {0 :: nat}"
    and ne: "\<not> trace_ends s (get2 tt a b)"
  from s have s0: "s = 0" by simp
  consider "a = 0" "b = 0" | "a = 0" "1 \<le> b" | "1 \<le> a" "b = 0" | "1 \<le> a" "1 \<le> b"
    by (cases a; cases b) auto
  then show "(a \<noteq> 0 \<or> b \<noteq> 0)
      \<and> (\<forall>n \<in> set (next_steps s (get2 tt a b) (int a) (int b)).
            0 \<le> fst n \<and> 0 \<le> fst (snd n) \<and> snd (snd n) \<in> {0})"
  proof cases
    case 1
    with b [OF a] ne s0 show ?thesis by (cases loc) (simp_all add: trace_ends_def)
  next
    case 2
    with b [OF a] ne s0 show ?thesis
      by (cases loc) (simp_all add: trace_ends_def next_steps_def)
  next
    case 3
    with b [OF a] ne s0 show ?thesis
      by (cases loc) (simp_all add: trace_ends_def next_steps_def)
  next
    case 4
    with s0 show ?thesis by (auto simp: next_steps_def)
  qed
qed

lemma safe_table_affine:
  assumes b: "\<And>a b. a < R \<Longrightarrow> b < C \<Longrightarrow> a = 0 \<or> b = 0 \<Longrightarrow>
      get2 tt a b = (if loc then 0 else if a = 0 \<and> 1 \<le> b then 16 else if b = 0 \<and> 1 \<le> a then 64 else 0)"
  shows "safe_table tt R C {1, 2, 3}"
  unfolding safe_table_def
proof (intro allI impI)
  fix a b s
  assume a: "a < R" "b < C" and s: "s \<in> {1, 2, 3 :: nat}"
    and ne: "\<not> trace_ends s (get2 tt a b)"
  consider "a = 0" "b = 0" | "a = 0" "1 \<le> b" | "1 \<le> a" "b = 0" | "1 \<le> a" "1 \<le> b"
    by (cases a; cases b) auto
  then show "(a \<noteq> 0 \<or> b \<noteq> 0)
      \<and> (\<forall>n \<in> set (next_steps s (get2 tt a b) (int a) (int b)).
            0 \<le> fst n \<and> 0 \<le> fst (snd n) \<and> snd (snd n) \<in> {1, 2, 3})"
  proof cases
    case 1
    with b [OF a] ne s show ?thesis by (cases loc) (auto simp: trace_ends_def)
  next
    case 2
    with b [OF a] ne s show ?thesis
      by (cases loc) (auto simp: trace_ends_def next_steps_def)
  next
    case 3
    with b [OF a] ne s show ?thesis
      by (cases loc) (auto simp: trace_ends_def next_steps_def)
  next
    case 4
    with s show ?thesis by (auto simp: next_steps_def Let_def)
  qed
qed

lemma np_where_range:
  "st \<in> set (np_where t v) \<Longrightarrow> fst st < length t \<and> snd st < length (t ! fst st)"
  by (auto simp: np_where_def)

lemma starts_general_range:
  assumes "rect R C tt" "rect R C st" "0 < R" "0 < C"
  shows "\<forall>s \<in> set (snd (starts_general tt st loc)). fst s < R \<and> fst (snd s) < C \<and> snd (snd s) \<in> {0}"
proof (cases loc)
  case True
  have "fst p < R \<and> snd p < C" if "p \<in> set (np_where st v)" for p v
    using np_where_range [OF that] assms(2) by (auto simp: rect_def)
  with True show ?thesis
    by (auto simp: starts_general_def Let_def)
next
  case False
  with assms show ?thesis
    by (simp add: starts_general_def Let_def rect_shape0 rect_shape1)
qed

lemma starts_affine_range:
  assumes "rect R C (trace_table st)" "rect R C (m_table st)" "rect R C (g1_table st)"
    "rect R C (g2_table st)" "0 < R" "0 < C"
  shows "\<forall>s \<in> set (snd (starts_affine st loc)).
           fst s < R \<and> fst (snd s) < C \<and> snd (snd s) \<in> {1, 2, 3}"
proof (cases loc)
  case True
  have r1: "a < R \<and> b < C" if "(a, b) \<in> set (np_where (m_table st) v)" for a b v
    using np_where_range [OF that] assms(2) by (auto simp: rect_def)
  have r2: "a < R \<and> b < C" if "(a, b) \<in> set (np_where (g1_table st) v)" for a b v
    using np_where_range [OF that] assms(3) by (auto simp: rect_def)
  have r3: "a < R \<and> b < C" if "(a, b) \<in> set (np_where (g2_table st) v)" for a b v
    using np_where_range [OF that] assms(4) by (auto simp: rect_def)
  from True r1 r2 r3 show ?thesis
    by (auto simp: starts_affine_def Let_def)
next
  case False
  with assms show ?thesis
    by (auto simp: starts_affine_def Let_def rect_shape0 rect_shape1)
qed


lemma general_tables_safe:
  "safe_table (fst (general_tables seq1 seq2 matrix g tp loc))
     (Suc (length (code seq1))) (Suc (length (code seq2))) {0}"
proof (rule safe_table_general [where loc = loc])
  fix a b
  assume a: "a < Suc (length (code seq1))" "b < Suc (length (code seq2))" and z: "a = 0 \<or> b = 0"
  from general_tables_cells [of seq1 seq2 g tp loc matrix] z
  have "get2 (fst (general_tables seq1 seq2 matrix g tp loc)) a b
      = get2 (fst (init_general (length (code seq1)) (length (code seq2)) g tp loc)) a b"
    unfolding general_inv_def by blast
  also have "\<dots> = (if loc then 0 else if a = 0 \<and> 1 \<le> b then 2 else if b = 0 \<and> 1 \<le> a then 4 else 0)"
    using a by (intro init_general_trace) simp_all
  finally show "get2 (fst (general_tables seq1 seq2 matrix g tp loc)) a b
      = (if loc then 0 else if a = 0 \<and> 1 \<le> b then 2 else if b = 0 \<and> 1 \<le> a then 4 else 0)" .
qed

lemma affine_tables_safe:
  "safe_table (trace_table (affine_tables seq1 seq2 matrix go ge tp loc))
     (Suc (length (code seq1))) (Suc (length (code seq2))) {1, 2, 3}"
proof (rule safe_table_affine [where loc = loc])
  fix a b
  assume a: "a < Suc (length (code seq1))" "b < Suc (length (code seq2))" and z: "a = 0 \<or> b = 0"
  from affine_tables_cells [of seq1 seq2 go ge matrix tp loc] z
  have "affine_at (affine_tables seq1 seq2 matrix go ge tp loc) a b
      = affine_at (init_affine (length (code seq1)) (length (code seq2)) go ge
          (neg_inf go ge (np_min (concat (score_matrix matrix)))) tp loc) a b"
    unfolding affine_inv_def by blast
  then have "get2 (trace_table (affine_tables seq1 seq2 matrix go ge tp loc)) a b
      = get2 (trace_table (init_affine (length (code seq1)) (length (code seq2)) go ge
          (neg_inf go ge (np_min (concat (score_matrix matrix)))) tp loc)) a b"
    by (simp add: affine_at_def)
  also have "\<dots> = (if loc then 0 else if a = 0 \<and> 1 \<le> b then 16 else if b = 0 \<and> 1 \<le> a then 64 else 0)"
    using a by (intro init_affine_trace) simp_all
  finally show "get2 (trace_table (affine_tables seq1 seq2 matrix go ge tp loc)) a b
      = (if loc then 0 else if a = 0 \<and> 1 \<le> b then 16 else if b = 0 \<and> 1 \<le> a then 64 else 0)" .
qed

text \<open>
  Claim C6. Every trace of an alignment returned by \<open>align_optimal\<close> is valid: read
  forward, the indices of each sequence that are no gap go up by exactly one from one
  to the next (so they never decrease and no index is met twice), and no row has a gap
  in both columns (every step advances in at least one sequence).
\<close>

theorem align_optimal_traces_valid:
  assumes r: "align_optimal seq1 seq2 matrix gap_penalty terminal_penalty local = Inr alignments"
    and a: "a \<in> set alignments"
  shows "valid_trace (trace a)"
proof (cases gap_penalty)
  case (GapInt g)
  define tabs where "tabs = general_tables seq1 seq2 matrix g terminal_penalty local"
  from r have t: "traceback seq1 seq2 (fst tabs) (starts_general (fst tabs) (snd tabs) local)
      = Inr alignments"
    unfolding align_optimal_def GapInt tabs_def by (simp add: Let_def split: if_splits)
  from general_tables_cells [of seq1 seq2 g terminal_penalty local matrix]
  have rect: "rect (Suc (length (code seq1))) (Suc (length (code seq2))) (fst tabs)"
    "rect (Suc (length (code seq1))) (Suc (length (code seq2))) (snd tabs)"
    unfolding tabs_def general_inv_def by blast+
  have safe: "safe_table (fst tabs) (Suc (length (code seq1))) (Suc (length (code seq2))) {0}"
    unfolding tabs_def by (rule general_tables_safe)
  have st: "\<forall>s \<in> set (snd (starts_general (fst tabs) (snd tabs) local)).
      fst s < Suc (length (code seq1)) \<and> fst (snd s) < Suc (length (code seq2)) \<and> snd (snd s) \<in> {0}"
    using rect by (rule starts_general_range) simp_all
  from t rect(1) safe st a show ?thesis by (rule traceback_valid)
next
  case (GapTuple ps)
  define st where "st = affine_tables seq1 seq2 matrix (ps ! 0) (ps ! 1) terminal_penalty local"
  from r have t: "traceback seq1 seq2 (trace_table st) (starts_affine st local) = Inr alignments"
    unfolding align_optimal_def GapTuple st_def by (simp add: Let_def split: if_splits)
  from affine_tables_cells [of seq1 seq2 "ps ! 0" "ps ! 1" matrix terminal_penalty local]
  have rect: "rect (Suc (length (code seq1))) (Suc (length (code seq2))) (trace_table st)"
    "rect (Suc (length (code seq1))) (Suc (length (code seq2))) (m_table st)"
    "rect (Suc (length (code seq1))) (Suc (length (code seq2))) (g1_table st)"
    "rect (Suc (length (code seq1))) (Suc (length (code seq2))) (g2_table st)"
    unfolding st_def affine_inv_def by blast+
  have safe: "safe_table (trace_table st) (Suc (length (code seq1))) (Suc (length (code seq2))) {1, 2, 3}"
    unfolding st_def by (rule affine_tables_safe)
  have sts: "\<forall>s \<in> set (snd (starts_affine st local)).
      fst s < Suc (length (code seq1)) \<and> fst (snd s) < Suc (length (code seq2))
      \<and> snd (snd s) \<in> {1, 2, 3}"
    using rect by (rule starts_affine_range) simp_all
  from t rect(1) safe sts a show ?thesis by (rule traceback_valid)
next
  case GapOther
  with r show ?thesis by (simp add: align_optimal_def split: if_splits)
qed

theorem align_optimal_traces_valid_witness:
  "align_optimal \<lparr> get_alphabet = ''ACGT'', code = [0, 3, 0, 1, 2] \<rparr>
       \<lparr> get_alphabet = ''ACGT'', code = [0, 2, 2, 1] \<rparr>
       \<lparr> get_alphabet1 = ''ACGT'', get_alphabet2 = ''ACGT'',
         score_matrix = [[5, - 4, - 4, - 4], [- 4, 5, - 4, - 4], [- 4, - 4, 5, - 4], [- 4, - 4, - 4, 5]] \<rparr>
       (GapInt (- 6)) True False
     = Inr [\<lparr> sequences = (\<lparr> get_alphabet = ''ACGT'', code = [0, 3, 0, 1, 2] \<rparr>,
                             \<lparr> get_alphabet = ''ACGT'', code = [0, 2, 2, 1] \<rparr>),
             trace = [(0, 0), (1, 1), (2, 2), (3, 3), (4, - 1)], score = - 4 \<rparr>]
   \<and> valid_trace [(0, 0), (1, 1), (2, 2), (3, 3), (4, - 1)]"
proof -
  define s1 where "s1 = \<lparr> get_alphabet = ''ACGT'', code = [0 :: nat, 3, 0, 1, 2] \<rparr>"
  define s2 where "s2 = \<lparr> get_alphabet = ''ACGT'', code = [0 :: nat, 2, 2, 1] \<rparr>"
  define M where "M = \<lparr> get_alphabet1 = ''ACGT'', get_alphabet2 = ''ACGT'',
         score_matrix = [[5 :: int, - 4, - 4, - 4], [- 4, 5, - 4, - 4], [- 4, - 4, 5, - 4],
                         [- 4, - 4, - 4, 5]] \<rparr>"
  define A where "A = \<lparr> sequences = (s1, s2),
             trace = [(0 :: int, 0 :: int), (1, 1), (2, 2), (3, 3), (4, - 1)], score = - 4 :: int \<rparr>"
  have e: "align_optimal s1 s2 M (GapInt (- 6)) True False = Inr [A]"
    unfolding s1_def s2_def M_def A_def by code_simp
  have "A \<in> set [A]" by simp
  with e have "valid_trace (trace A)" by (rule align_optimal_traces_valid)
  with e show ?thesis unfolding s1_def s2_def M_def A_def by simp
qed


subsection \<open>Affine penalty with equal opening and extension\<close>

lemma init_general_score:
  "a \<le> n \<Longrightarrow> b \<le> m \<Longrightarrow>
   get2 (snd (init_general n m g True loc)) a b =
     (if loc then 0 else if a = 0 then i32 (int b * g) else if b = 0 then i32 (int a * g) else 0)"
  by (simp add: init_general_def Let_def get2_assign_row [where R = "Suc n" and C = "Suc m"]
      get2_assign_col [where R = "Suc n" and C = "Suc m"] rect_zeros rect_assign_col get2_zeros)

lemma init_affine_m:
  "a \<le> n \<Longrightarrow> b \<le> m \<Longrightarrow>
   get2 (m_table (init_affine n m go ge ninf True loc)) a b =
     (if (a = 0 \<and> 1 \<le> b) \<or> (b = 0 \<and> 1 \<le> a) then i32 ninf else 0)"
  by (simp add: init_affine_def Let_def get2_assign_row [where R = "Suc n" and C = "Suc m"]
      get2_assign_col [where R = "Suc n" and C = "Suc m"] rect_zeros rect_assign_row get2_zeros)

lemma init_affine_g1:
  "a \<le> n \<Longrightarrow> b \<le> m \<Longrightarrow>
   get2 (g1_table (init_affine n m go ge ninf True loc)) a b =
     (if \<not> loc \<and> a = 0 \<and> 1 \<le> b then i32 (int (b - 1) * ge + go)
      else if b = 0 then i32 ninf else 0)"
  by (simp add: init_affine_def Let_def get2_assign_row [where R = "Suc n" and C = "Suc m"]
      get2_assign_col [where R = "Suc n" and C = "Suc m"] rect_zeros rect_assign_col get2_zeros)

lemma init_affine_g2:
  "a \<le> n \<Longrightarrow> b \<le> m \<Longrightarrow>
   get2 (g2_table (init_affine n m go ge ninf True loc)) a b =
     (if \<not> loc \<and> b = 0 \<and> 1 \<le> a then i32 (int (a - 1) * ge + go)
      else if a = 0 then i32 ninf else 0)"
  by (simp add: init_affine_def Let_def get2_assign_row [where R = "Suc n" and C = "Suc m"]
      get2_assign_col [where R = "Suc n" and C = "Suc m"] rect_zeros rect_assign_row get2_zeros)

lemma clampL_max: "max (clampL loc a) (clampL loc b) = clampL loc (max a b)"
  by (auto simp: clampL_def max_def)

lemma clampL_ge: "x \<le> clampL loc x"
  by (simp add: clampL_def)

lemma clampL_cases: "clampL loc x = x \<or> (loc \<and> clampL loc x = 0)"
  by (simp add: clampL_def)

text \<open>The step at an interior cell, as arithmetic.\<close>

lemma equal_penalties_cell:
  fixes d l t x1 x2 e1 e2 c :: int
  assumes l: "l = max x1 e1" and t: "t = max x2 e2"
    and k1: "e1 \<le> c + 2 * g \<or> (loc \<and> e1 = g)" and k2: "e2 \<le> c + 2 * g \<or> (loc \<and> e2 = g)"
    and ml: "c + 2 * g \<le> l" and mt: "c + 2 * g \<le> t"
    and g: "g < 0"
    and noslip: "\<not> (d < l \<and> l = t)"
  shows "clampL loc (max d (max l t)) = clampL loc (max d (max x1 x2))"
proof (cases "loc \<and> max d (max l t) \<le> 0")
  case True
  moreover from l t have "max d (max x1 x2) \<le> max d (max l t)" by linarith
  ultimately show ?thesis by (auto simp: clampL_def)
next
  case False
  have "max d (max l t) \<le> max d (max x1 x2)"
  proof (rule ccontr)
    assume "\<not> max d (max l t) \<le> max d (max x1 x2)"
    then have big: "max d (max x1 x2) < max d (max l t)" by linarith
    then have "e1 = max d (max l t) \<or> e2 = max d (max l t)" using l t by linarith
    then show False
    proof
      assume 1: "e1 = max d (max l t)"
      have "\<not> (loc \<and> e1 = g)"
      proof
        assume "loc \<and> e1 = g"
        with 1 g have "loc \<and> max d (max l t) \<le> 0" by simp
        with False show False by simp
      qed
      with k1 have "e1 \<le> c + 2 * g" by simp
      with mt have "e1 \<le> t" by simp
      with 1 l have "l = t \<and> l = e1" by linarith
      moreover from big 1 have "d < e1" by linarith
      ultimately show False using noslip by simp
    next
      assume 2: "e2 = max d (max l t)"
      have "\<not> (loc \<and> e2 = g)"
      proof
        assume "loc \<and> e2 = g"
        with 2 g have "loc \<and> max d (max l t) \<le> 0" by simp
        with False show False by simp
      qed
      with k2 have "e2 \<le> c + 2 * g" by simp
      with ml have "e2 \<le> l" by simp
      with 2 t have "l = t \<and> t = e2" by linarith
      moreover from big 2 have "d < e2" by linarith
      ultimately show False using noslip by simp
    qed
  qed
  moreover from l t have "max d (max x1 x2) \<le> max d (max l t)" by linarith
  ultimately have "max d (max l t) = max d (max x1 x2)" by linarith
  then show ?thesis by simp
qed


lemma equal_penalties_tables:
  fixes S M G1 G2 sim :: "nat \<Rightarrow> nat \<Rightarrow> int"
  assumes g: "g < 0"
    and ninf: "ninf \<le> int n * g" "ninf \<le> int m * g"
    and S0: "\<And>i j. i \<le> n \<Longrightarrow> j \<le> m \<Longrightarrow> i = 0 \<or> j = 0 \<Longrightarrow>
          S i j = (if loc then 0 else if i = 0 then int j * g else int i * g)"
    and M0: "\<And>i j. i \<le> n \<Longrightarrow> j \<le> m \<Longrightarrow> i = 0 \<or> j = 0 \<Longrightarrow>
          M i j = (if i = 0 \<and> j = 0 then 0 else ninf)"
    and G10: "\<And>i j. i \<le> n \<Longrightarrow> j \<le> m \<Longrightarrow> i = 0 \<or> j = 0 \<Longrightarrow>
          G1 i j = (if \<not> loc \<and> i = 0 \<and> 1 \<le> j then int j * g else if j = 0 then ninf else 0)"
    and G20: "\<And>i j. i \<le> n \<Longrightarrow> j \<le> m \<Longrightarrow> i = 0 \<or> j = 0 \<Longrightarrow>
          G2 i j = (if \<not> loc \<and> j = 0 \<and> 1 \<le> i then int i * g else if i = 0 then ninf else 0)"
    and Srec: "\<And>i j. 1 \<le> i \<Longrightarrow> i \<le> n \<Longrightarrow> 1 \<le> j \<Longrightarrow> j \<le> m \<Longrightarrow>
          S i j = clampL loc (max (S (i - 1) (j - 1) + sim i j)
                               (max (S i (j - 1) + g) (S (i - 1) j + g)))"
    and noslip: "\<And>i j. 1 \<le> i \<Longrightarrow> i \<le> n \<Longrightarrow> 1 \<le> j \<Longrightarrow> j \<le> m \<Longrightarrow>
          \<not> (S (i - 1) (j - 1) + sim i j < S i (j - 1) + g \<and> S i (j - 1) + g = S (i - 1) j + g)"
    and Mrec: "\<And>i j. 1 \<le> i \<Longrightarrow> i \<le> n \<Longrightarrow> 1 \<le> j \<Longrightarrow> j \<le> m \<Longrightarrow>
          M i j = clampL loc (max (M (i - 1) (j - 1) + sim i j)
                               (max (G1 (i - 1) (j - 1) + sim i j) (G2 (i - 1) (j - 1) + sim i j)))"
    and G1rec: "\<And>i j. 1 \<le> i \<Longrightarrow> i \<le> n \<Longrightarrow> 1 \<le> j \<Longrightarrow> j \<le> m \<Longrightarrow>
          G1 i j = clampL loc (max (M i (j - 1) + g) (G1 i (j - 1) + g))"
    and G2rec: "\<And>i j. 1 \<le> i \<Longrightarrow> i \<le> n \<Longrightarrow> 1 \<le> j \<Longrightarrow> j \<le> m \<Longrightarrow>
          G2 i j = clampL loc (max (M (i - 1) j + g) (G2 (i - 1) j + g))"
  shows "i \<le> n \<Longrightarrow> \<forall>j \<le> m. S i j = max (M i j) (max (G1 i j) (G2 i j))"
proof (induction i)
  have le0: "ninf \<le> 0"
  proof -
    have "int n * g \<le> 0" using g by (simp add: mult_nonneg_nonpos)
    with ninf(1) show ?thesis by simp
  qed
  have lej: "ninf \<le> int j * g" if "j \<le> m" for j
  proof -
    from that g have "int m * g \<le> int j * g" by (intro mult_right_mono_neg) simp_all
    with ninf(2) show ?thesis by simp
  qed
  have lei: "ninf \<le> int i * g" if "i \<le> n" for i
  proof -
    from that g have "int n * g \<le> int i * g" by (intro mult_right_mono_neg) simp_all
    with ninf(1) show ?thesis by simp
  qed
  have pred: "int k * g = int (k - 1) * g + g" if "1 \<le> k" for k
  proof -
    from that have "int (k - 1) = int k - 1" by simp
    then show ?thesis by (simp add: algebra_simps)
  qed
  have Sb: "S i 0 = (if loc then 0 else int i * g)" if "i \<le> n" for i
    using S0 [OF that, of 0] by simp
  have Sr: "S 0 j = (if loc then 0 else int j * g)" if "j \<le> m" for j
    using S0 [OF _ that, of 0] by simp
  have border: "S i j = max (M i j) (max (G1 i j) (G2 i j))"
    if "i \<le> n" "j \<le> m" "i = 0 \<or> j = 0" for i j
  proof -
    from that(3) consider "i = 0" "j = 0" | "i = 0" "1 \<le> j" | "1 \<le> i" "j = 0"
      by (cases i; cases j) auto
    then show ?thesis
    proof cases
      case 1
      with S0 [OF that] M0 [OF that] G10 [OF that] G20 [OF that] le0 show ?thesis
        by (cases loc) simp_all
    next
      case 2
      with S0 [OF that] M0 [OF that] G10 [OF that] G20 [OF that] le0 lej [OF that(2)]
      show ?thesis by (cases loc) simp_all
    next
      case 3
      with S0 [OF that] M0 [OF that] G10 [OF that] G20 [OF that] le0 lei [OF that(1)]
      show ?thesis by (cases loc) simp_all
    qed
  qed
  have mono_top: "S (i - 1) j + g \<le> S i j" if "1 \<le> i" "i \<le> n" "j \<le> m" for i j
  proof (cases "j = 0")
    case True
    from that have i': "i - 1 \<le> n" by simp
    show ?thesis
    proof (cases loc)
      case True
      with Sb [OF that(2)] Sb [OF i'] \<open>j = 0\<close> g show ?thesis by simp
    next
      case False
      with Sb [OF that(2)] Sb [OF i'] \<open>j = 0\<close> have "S i j = int i * g" "S (i - 1) j = int (i - 1) * g"
        by simp_all
      with pred [OF that(1)] show ?thesis by simp
    qed
  next
    case False
    then have "1 \<le> j" by simp
    from Srec [OF that(1,2) this that(3)]
      clampL_ge [of "max (S (i - 1) (j - 1) + sim i j) (max (S i (j - 1) + g) (S (i - 1) j + g))" loc]
    show ?thesis by linarith
  qed
  have mono_left: "S i (j - 1) + g \<le> S i j" if "i \<le> n" "1 \<le> j" "j \<le> m" for i j
  proof (cases "i = 0")
    case True
    from that have j': "j - 1 \<le> m" by simp
    show ?thesis
    proof (cases loc)
      case True
      with Sr [OF that(3)] Sr [OF j'] \<open>i = 0\<close> g show ?thesis by simp
    next
      case False
      with Sr [OF that(3)] Sr [OF j'] \<open>i = 0\<close> have "S i j = int j * g" "S i (j - 1) = int (j - 1) * g"
        by simp_all
      with pred [OF that(2)] show ?thesis by simp
    qed
  next
    case False
    then have "1 \<le> i" by simp
    from Srec [OF this that(1,2,3)]
      clampL_ge [of "max (S (i - 1) (j - 1) + sim i j) (max (S i (j - 1) + g) (S (i - 1) j + g))" loc]
    show ?thesis by linarith
  qed
  {
    case 0
    show ?case using border by simp
  next
    case (Suc i)
    then have i: "Suc i \<le> n" "i \<le> n"
      and IH: "\<And>j. j \<le> m \<Longrightarrow> S i j = max (M i j) (max (G1 i j) (G2 i j))"
      by simp_all
    have "j \<le> m \<Longrightarrow> S (Suc i) j = max (M (Suc i) j) (max (G1 (Suc i) j) (G2 (Suc i) j))" for j
    proof (induction j)
      case 0
      then show ?case using border [of "Suc i" 0] i by simp
    next
      case (Suc j)
      then have j: "Suc j \<le> m" "j \<le> m"
        and IHj: "S (Suc i) j = max (M (Suc i) j) (max (G1 (Suc i) j) (G2 (Suc i) j))"
        by simp_all
      have ij: "1 \<le> Suc i" "1 \<le> Suc j" by simp_all
      define c where "c = S i j"
      define d where "d = c + sim (Suc i) (Suc j)"
      define l where "l = S (Suc i) j + g"
      define t where "t = S i (Suc j) + g"
      define x1 where "x1 = max (M (Suc i) j) (G1 (Suc i) j) + g"
      define x2 where "x2 = max (M i (Suc j)) (G2 i (Suc j)) + g"
      define e1 where "e1 = G2 (Suc i) j + g"
      define e2 where "e2 = G1 i (Suc j) + g"
      have cmax: "c = max (M i j) (max (G1 i j) (G2 i j))" unfolding c_def using IH [OF j(2)] .
      have l: "l = max x1 e1" unfolding l_def x1_def e1_def IHj by linarith
      have t: "t = max x2 e2" unfolding t_def x2_def e2_def IH [OF j(1)] by linarith
      have k1: "e1 \<le> c + 2 * g \<or> (loc \<and> e1 = g)"
      proof (cases "j = 0")
        case True
        have "G2 (Suc i) 0 = (if loc then 0 else int (Suc i) * g)"
          using G20 [of "Suc i" 0] i by simp
        moreover have "S i 0 = (if loc then 0 else int i * g)" using Sb [OF i(2)] .
        moreover have "int (Suc i) * g = int i * g + g" using pred [of "Suc i"] by simp
        ultimately show ?thesis
          unfolding e1_def c_def True by (cases loc) simp_all
      next
        case False
        then have j1: "1 \<le> j" by simp
        from G2rec [OF ij(1) i(1) j1 j(2)]
        have "G2 (Suc i) j = clampL loc (max (M i j + g) (G2 i j + g))" by simp
        moreover have "max (M i j + g) (G2 i j + g) \<le> c + g" unfolding cmax by linarith
        ultimately show ?thesis
          using clampL_cases [of loc "max (M i j + g) (G2 i j + g)"] unfolding e1_def by auto
      qed
      have k2: "e2 \<le> c + 2 * g \<or> (loc \<and> e2 = g)"
      proof (cases "i = 0")
        case True
        have "G1 0 (Suc j) = (if loc then 0 else int (Suc j) * g)"
          using G10 [of 0 "Suc j"] j by simp
        moreover have "S 0 j = (if loc then 0 else int j * g)" using Sr [OF j(2)] .
        moreover have "int (Suc j) * g = int j * g + g" using pred [of "Suc j"] by simp
        ultimately show ?thesis
          unfolding e2_def c_def True by (cases loc) simp_all
      next
        case False
        then have i1: "1 \<le> i" by simp
        from G1rec [OF i1 i(2) ij(2) j(1)]
        have "G1 i (Suc j) = clampL loc (max (M i j + g) (G1 i j + g))" by simp
        moreover have "max (M i j + g) (G1 i j + g) \<le> c + g" unfolding cmax by linarith
        ultimately show ?thesis
          using clampL_cases [of loc "max (M i j + g) (G1 i j + g)"] unfolding e2_def by auto
      qed
      have ml: "c + 2 * g \<le> l"
        using mono_top [OF ij(1) i(1) j(2)] unfolding l_def c_def by simp
      have mt: "c + 2 * g \<le> t"
        using mono_left [OF i(2) ij(2) j(1)] unfolding t_def c_def by simp
      have ns: "\<not> (d < l \<and> l = t)"
        using noslip [OF ij(1) i(1) ij(2) j(1)] unfolding d_def l_def t_def c_def by simp
      have "S (Suc i) (Suc j) = clampL loc (max d (max l t))"
        using Srec [OF ij(1) i(1) ij(2) j(1)] unfolding d_def l_def t_def c_def by simp
      also have "\<dots> = clampL loc (max d (max x1 x2))"
        using l t k1 k2 ml mt g ns by (rule equal_penalties_cell)
      also have "\<dots> = max (clampL loc d) (max (clampL loc x1) (clampL loc x2))"
        by (simp add: clampL_max)
      also have "clampL loc d = M (Suc i) (Suc j)"
      proof -
        have "max (M i j + sim (Suc i) (Suc j))
                (max (G1 i j + sim (Suc i) (Suc j)) (G2 i j + sim (Suc i) (Suc j))) = d"
          unfolding d_def cmax by linarith
        with Mrec [OF ij(1) i(1) ij(2) j(1)] show ?thesis by simp
      qed
      also have "clampL loc x1 = G1 (Suc i) (Suc j)"
      proof -
        have "max (M (Suc i) j + g) (G1 (Suc i) j + g) = x1" unfolding x1_def by linarith
        with G1rec [OF ij(1) i(1) ij(2) j(1)] show ?thesis by simp
      qed
      also have "clampL loc x2 = G2 (Suc i) (Suc j)"
      proof -
        have "max (M i (Suc j) + g) (G2 i (Suc j) + g) = x2" unfolding x2_def by linarith
        with G2rec [OF ij(1) i(1) ij(2) j(1)] show ?thesis by simp
      qed
      finally show ?case .
    qed
    then show ?case by blast
  }
qed

lemma find_maximum_max:
  "\<not> (d < l \<and> l = t) \<Longrightarrow> snd (find_maximum d l t) = max d (max l t)"
  by (auto simp: find_maximum_def)

lemma neg_inf_low: "g < 0 \<Longrightarrow> INT32_MIN \<le> neg_inf g g x"
  by (simp add: neg_inf_def Let_def)

lemma list_all_interior:
  "list_all (\<lambda>i. list_all (P i) [1..<Suc m]) [1..<Suc n]
   \<longleftrightarrow> (\<forall>i j. 1 \<le> i \<and> i \<le> n \<and> 1 \<le> j \<and> j \<le> m \<longrightarrow> P i j)"
  unfolding list_all_iff by (auto simp del: upt_Suc)

lemma affine_at_components:
  assumes "affine_at st a b = x"
  shows "get2 (trace_table st) a b = fst x" "get2 (m_table st) a b = fst (snd x)"
    "get2 (g1_table st) a b = fst (snd (snd x))" "get2 (g2_table st) a b = snd (snd (snd x))"
  using assms by (auto simp: affine_at_def)

lemma equal_penalties_cells:
  fixes seq1 seq2 :: sequence and matrix :: substitution_matrix and g :: int and loc :: bool
  assumes g: "g < 0" and low: "sentinel_low seq1 seq2 matrix g"
    and eg: "exact_general seq1 seq2 matrix g loc" and ea: "exact_affine seq1 seq2 matrix g loc"
  defines "S \<equiv> snd (general_tables seq1 seq2 matrix g True loc)"
  defines "st \<equiv> affine_tables seq1 seq2 matrix g g True loc"
  assumes ij: "i \<le> length (code seq1)" "j \<le> length (code seq2)"
  shows "get2 S i j = max (get2 (m_table st) i j) (max (get2 (g1_table st) i j) (get2 (g2_table st) i j))"
proof -
  define n where "n = length (code seq1)"
  define m where "m = length (code seq2)"
  define ninf where "ninf = neg_inf g g (np_min (concat (score_matrix matrix)))"
  define sim where "sim = similarity (code seq1) (code seq2) (score_matrix matrix)"
  from low have nl: "ninf \<le> int n * g" "ninf \<le> int m * g"
    by (simp_all add: sentinel_low_def ninf_def n_def m_def Let_def)
  have nlo: "INT32_MIN \<le> ninf" unfolding ninf_def using g by (rule neg_inf_low)
  have mult: "int m * g \<le> int k * g" if "k \<le> m" for k
    using that g by (intro mult_right_mono_neg) simp_all
  have mult': "int n * g \<le> int k * g" if "k \<le> n" for k
    using that g by (intro mult_right_mono_neg) simp_all
  have nonpos: "int k * g \<le> 0" for k using g by (simp add: mult_nonneg_nonpos)
  have in_n: "i32 ninf = ninf"
    using nlo nl(1) nonpos [of n] by (intro i32_id) (simp add: in_i32_def INT32_MAX_def)
  have in_j: "i32 (int k * g) = int k * g" if "k \<le> m" for k
    using nlo nl(2) mult [OF that] nonpos [of k] by (intro i32_id) (simp add: in_i32_def INT32_MAX_def)
  have in_i: "i32 (int k * g) = int k * g" if "k \<le> n" for k
    using nlo nl(1) mult' [OF that] nonpos [of k] by (intro i32_id) (simp add: in_i32_def INT32_MAX_def)
  have pred: "int (k - 1) * g + g = int k * g" if "1 \<le> k" for k
  proof -
    from that have "int (k - 1) = int k - 1" by simp
    then show ?thesis by (simp add: algebra_simps)
  qed
  note gc = general_tables_cells [of seq1 seq2 g True loc matrix, folded n_def m_def]
  note ac = affine_tables_cells [of seq1 seq2 g g matrix True loc, folded n_def m_def ninf_def]
  have S0: "get2 S a b = (if loc then 0 else if a = 0 then int b * g else int a * g)"
    if "a \<le> n" "b \<le> m" "a = 0 \<or> b = 0" for a b
  proof -
    from gc that(3) have "get2 S a b = get2 (snd (init_general n m g True loc)) a b"
      unfolding S_def general_inv_def by blast
    also have "\<dots> = (if loc then 0 else if a = 0 then i32 (int b * g)
                       else if b = 0 then i32 (int a * g) else 0)"
      using that(1,2) by (rule init_general_score)
    finally show ?thesis using that in_j [of b] in_i [of a] by auto
  qed
  have bnd: "affine_at st a b = affine_at (init_affine n m g g ninf True loc) a b"
    if "a = 0 \<or> b = 0" for a b
    using ac that unfolding st_def affine_inv_def by blast
  have M0: "get2 (m_table st) a b = (if a = 0 \<and> b = 0 then 0 else ninf)"
    if "a \<le> n" "b \<le> m" "a = 0 \<or> b = 0" for a b
  proof -
    from bnd [OF that(3)] have "get2 (m_table st) a b = get2 (m_table (init_affine n m g g ninf True loc)) a b"
      by (auto simp: affine_at_def)
    also note init_affine_m [OF that(1,2)]
    finally show ?thesis using that(3) in_n by auto
  qed
  have G10: "get2 (g1_table st) a b
      = (if \<not> loc \<and> a = 0 \<and> 1 \<le> b then int b * g else if b = 0 then ninf else 0)"
    if "a \<le> n" "b \<le> m" "a = 0 \<or> b = 0" for a b
  proof -
    from bnd [OF that(3)] have "get2 (g1_table st) a b = get2 (g1_table (init_affine n m g g ninf True loc)) a b"
      by (auto simp: affine_at_def)
    also note init_affine_g1 [OF that(1,2)]
    finally show ?thesis using that in_n in_j [of b] pred [of b] by auto
  qed
  have G20: "get2 (g2_table st) a b
      = (if \<not> loc \<and> b = 0 \<and> 1 \<le> a then int a * g else if a = 0 then ninf else 0)"
    if "a \<le> n" "b \<le> m" "a = 0 \<or> b = 0" for a b
  proof -
    from bnd [OF that(3)] have "get2 (g2_table st) a b = get2 (g2_table (init_affine n m g g ninf True loc)) a b"
      by (auto simp: affine_at_def)
    also note init_affine_g2 [OF that(1,2)]
    finally show ?thesis using that in_n in_i [of a] pred [of a] by auto
  qed
  from eg have exg: "in_i32 (get2 S (a - 1) (b - 1) + sim a b) \<and> in_i32 (get2 S a (b - 1) + g)
      \<and> in_i32 (get2 S (a - 1) b + g)
      \<and> \<not> (get2 S (a - 1) (b - 1) + sim a b < get2 S a (b - 1) + g
           \<and> get2 S a (b - 1) + g = get2 S (a - 1) b + g)"
    if "1 \<le> a" "a \<le> n" "1 \<le> b" "b \<le> m" for a b
    using that unfolding exact_general_def Let_def list_all_interior S_def sim_def n_def m_def
    by blast
  from ea have exa: "in_i32 (get2 (m_table st) (a - 1) (b - 1) + sim a b)
      \<and> in_i32 (get2 (g1_table st) (a - 1) (b - 1) + sim a b)
      \<and> in_i32 (get2 (g2_table st) (a - 1) (b - 1) + sim a b)
      \<and> in_i32 (get2 (m_table st) a (b - 1) + g) \<and> in_i32 (get2 (g1_table st) a (b - 1) + g)
      \<and> in_i32 (get2 (m_table st) (a - 1) b + g) \<and> in_i32 (get2 (g2_table st) (a - 1) b + g)
      \<and> \<not> (get2 (m_table st) (a - 1) (b - 1) + sim a b < get2 (g1_table st) (a - 1) (b - 1) + sim a b
           \<and> get2 (g1_table st) (a - 1) (b - 1) + sim a b = get2 (g2_table st) (a - 1) (b - 1) + sim a b)"
    if "1 \<le> a" "a \<le> n" "1 \<le> b" "b \<le> m" for a b
    using that unfolding exact_affine_def Let_def list_all_interior st_def sim_def n_def m_def
    by blast
  have Srec: "get2 S a b = clampL loc (max (get2 S (a - 1) (b - 1) + sim a b)
                               (max (get2 S a (b - 1) + g) (get2 S (a - 1) b + g)))"
    if "1 \<le> a" "a \<le> n" "1 \<le> b" "b \<le> m" for a b
  proof -
    from gc that have c: "general_cell (code seq1) (code seq2) (score_matrix matrix) g True loc
        (fst (init_general n m g True loc)) a b (general_tables seq1 seq2 matrix g True loc)"
      by simp
    note e = exg [OF that]
    have d: "from_diag (code seq1) (code seq2) (score_matrix matrix) S a b
        = get2 S (a - 1) (b - 1) + sim a b"
      using e by (simp add: from_diag_def sim_def similarity_def i32_id)
    have l: "from_left S g True a b = get2 S a (b - 1) + g"
      using e by (simp add: from_left_def gap_candidate_def i32_id)
    have t: "from_top S g True a b = get2 S (a - 1) b + g"
      using e by (simp add: from_top_def gap_candidate_def i32_id)
    have "snd (find_maximum (get2 S (a - 1) (b - 1) + sim a b) (get2 S a (b - 1) + g)
                 (get2 S (a - 1) b + g))
        = max (get2 S (a - 1) (b - 1) + sim a b) (max (get2 S a (b - 1) + g) (get2 S (a - 1) b + g))"
      using e by (intro find_maximum_max) simp
    with c show ?thesis
      unfolding general_cell_def S_def [symmetric] d l t
      by (auto simp: Let_def clampL_def split: if_splits)
  qed
  have aff: "affine_at st a b
      = affine_scores (code seq1) (code seq2) (score_matrix matrix) g g True loc a b st"
    if "1 \<le> a" "a \<le> n" "1 \<le> b" "b \<le> m" for a b
    using ac that unfolding st_def by simp
  have Mrec: "get2 (m_table st) a b = clampL loc (max (get2 (m_table st) (a - 1) (b - 1) + sim a b)
        (max (get2 (g1_table st) (a - 1) (b - 1) + sim a b) (get2 (g2_table st) (a - 1) (b - 1) + sim a b)))"
    if "1 \<le> a" "a \<le> n" "1 \<le> b" "b \<le> m" for a b
  proof -
    note e = exa [OF that]
    have ds: "diag_score (m_table st) (sim a b) a b = get2 (m_table st) (a - 1) (b - 1) + sim a b"
      "diag_score (g1_table st) (sim a b) a b = get2 (g1_table st) (a - 1) (b - 1) + sim a b"
      "diag_score (g2_table st) (sim a b) a b = get2 (g2_table st) (a - 1) (b - 1) + sim a b"
      using e by (simp_all add: diag_score_def i32_id)
    have mx: "snd (find_maximum (get2 (m_table st) (a - 1) (b - 1) + sim a b)
                 (get2 (g1_table st) (a - 1) (b - 1) + sim a b)
                 (get2 (g2_table st) (a - 1) (b - 1) + sim a b))
        = max (get2 (m_table st) (a - 1) (b - 1) + sim a b)
            (max (get2 (g1_table st) (a - 1) (b - 1) + sim a b)
                 (get2 (g2_table st) (a - 1) (b - 1) + sim a b))"
      using e by (intro find_maximum_max) simp
    from aff [OF that] have "get2 (m_table st) a b
        = fst (snd (affine_scores (code seq1) (code seq2) (score_matrix matrix) g g True loc a b st))"
      by (rule affine_at_components)
    also have "\<dots> = clampL loc (snd (find_maximum (diag_score (m_table st) (sim a b) a b)
                 (diag_score (g1_table st) (sim a b) a b) (diag_score (g2_table st) (sim a b) a b)))"
      by (simp add: affine_scores_def Let_def case_prod_beta clampL_def sim_def)
    finally show ?thesis unfolding ds mx .
  qed
  have G1rec: "get2 (g1_table st) a b
      = clampL loc (max (get2 (m_table st) a (b - 1) + g) (get2 (g1_table st) a (b - 1) + g))"
    if "1 \<le> a" "a \<le> n" "1 \<le> b" "b \<le> m" for a b
  proof -
    note e = exa [OF that]
    have ls: "left_score st (m_table st) g True a b = get2 (m_table st) a (b - 1) + g"
      "left_score st (g1_table st) g True a b = get2 (g1_table st) a (b - 1) + g"
      using e by (simp_all add: left_score_def gap_candidate_def i32_id)
    from aff [OF that] have "get2 (g1_table st) a b
        = fst (snd (snd (affine_scores (code seq1) (code seq2) (score_matrix matrix) g g True loc a b st)))"
      by (rule affine_at_components)
    also have "\<dots> = clampL loc (snd (find_gap1 (left_score st (m_table st) g True a b)
                 (left_score st (g1_table st) g True a b)))"
      by (simp add: affine_scores_def Let_def case_prod_beta clampL_def)
    finally show ?thesis unfolding ls find_gap1_max .
  qed
  have G2rec: "get2 (g2_table st) a b
      = clampL loc (max (get2 (m_table st) (a - 1) b + g) (get2 (g2_table st) (a - 1) b + g))"
    if "1 \<le> a" "a \<le> n" "1 \<le> b" "b \<le> m" for a b
  proof -
    note e = exa [OF that]
    have ts: "top_score st (m_table st) g True a b = get2 (m_table st) (a - 1) b + g"
      "top_score st (g2_table st) g True a b = get2 (g2_table st) (a - 1) b + g"
      using e by (simp_all add: top_score_def gap_candidate_def i32_id)
    from aff [OF that] have "get2 (g2_table st) a b
        = snd (snd (snd (affine_scores (code seq1) (code seq2) (score_matrix matrix) g g True loc a b st)))"
      by (rule affine_at_components)
    also have "\<dots> = clampL loc (snd (find_gap2 (top_score st (m_table st) g True a b)
                 (top_score st (g2_table st) g True a b)))"
      by (simp add: affine_scores_def Let_def case_prod_beta clampL_def)
    finally show ?thesis unfolding ts find_gap2_max .
  qed
  have ns: "\<not> (get2 S (a - 1) (b - 1) + sim a b < get2 S a (b - 1) + g
           \<and> get2 S a (b - 1) + g = get2 S (a - 1) b + g)"
    if "1 \<le> a" "a \<le> n" "1 \<le> b" "b \<le> m" for a b
    using exg [OF that] by blast
  from ij have i: "i \<le> n" and j: "j \<le> m" by (simp_all add: n_def m_def)
  from equal_penalties_tables [where S = "get2 S" and M = "get2 (m_table st)"
      and ?G1.0 = "get2 (g1_table st)" and ?G2.0 = "get2 (g2_table st)" and sim = sim
      and g = g and n = n and m = m and ninf = ninf and loc = loc and i = i,
      OF g nl S0 M0 G10 G20 Srec ns Mrec G1rec G2rec i] j
  show ?thesis by blast
qed

lemma concat_rect:
  assumes "rect R C t"
  shows "set (concat t) = {get2 t i j | i j. i < R \<and> j < C}"
proof -
  have "x \<in> set (concat t) \<longleftrightarrow> (\<exists>i j. i < R \<and> j < C \<and> x = get2 t i j)" for x
  proof
    assume "x \<in> set (concat t)"
    then obtain row where "row \<in> set t" "x \<in> set row" by auto
    then obtain i j where "i < length t" "row = t ! i" "j < length row" "x = row ! j"
      by (auto simp: in_set_conv_nth)
    with assms show "\<exists>i j. i < R \<and> j < C \<and> x = get2 t i j"
      by (auto simp: rect_def get2_def)
  next
    assume "\<exists>i j. i < R \<and> j < C \<and> x = get2 t i j"
    then obtain i j where ij: "i < R" "j < C" "x = get2 t i j" by blast
    with assms have "t ! i \<in> set t" "j < length (t ! i)" by (auto simp: rect_def)
    then have "t ! i \<in> set t" "t ! i ! j \<in> set (t ! i)" by simp_all
    then have "t ! i ! j \<in> set (concat t)" unfolding set_concat by blast
    with ij(3) show "x \<in> set (concat t)" by (simp add: get2_def)
  qed
  then show ?thesis by blast
qed

lemma np_max_Max: "xs \<noteq> [] \<Longrightarrow> np_max xs = Max (set xs)"
proof -
  assume "xs \<noteq> []"
  then obtain y ys where xs: "xs = y # ys" by (cases xs) auto
  have "np_max xs = fold max ys y" unfolding np_max_def xs by simp
  also have "\<dots> = Max (set xs)" unfolding xs by (rule Max.set_eq_fold [symmetric])
  finally show ?thesis .
qed

lemma Max_eq_cover:
  fixes A B :: "int set"
  assumes "finite A" "finite B" "A \<noteq> {}" "A \<subseteq> B" "\<And>b. b \<in> B \<Longrightarrow> \<exists>a \<in> A. b \<le> a"
  shows "Max A = Max B"
proof (rule antisym)
  from assms show "Max A \<le> Max B" by (intro Max_mono)
  from assms have "B \<noteq> {}" by auto
  with assms(2) have "Max B \<in> B" by (rule Max_in)
  with assms(5) obtain a where "a \<in> A" "Max B \<le> a" by blast
  with assms(1) show "Max B \<le> Max A" by (meson Max_ge order_trans)
qed

lemma equal_penalties_start_score:
  fixes seq1 seq2 :: sequence and matrix :: substitution_matrix and g :: int and loc :: bool
  assumes g: "g < 0" and low: "sentinel_low seq1 seq2 matrix g"
    and eg: "exact_general seq1 seq2 matrix g loc" and ea: "exact_affine seq1 seq2 matrix g loc"
  defines "tabs \<equiv> general_tables seq1 seq2 matrix g True loc"
  defines "st \<equiv> affine_tables seq1 seq2 matrix g g True loc"
  shows "fst (starts_general (fst tabs) (snd tabs) loc) = fst (starts_affine st loc)"
proof -
  define n where "n = length (code seq1)"
  define m where "m = length (code seq2)"
  note cell = equal_penalties_cells [OF g low eg ea, folded tabs_def st_def n_def m_def]
  from general_tables_cells [of seq1 seq2 g True loc matrix]
  have rS: "rect (Suc n) (Suc m) (snd tabs)" and rT: "rect (Suc n) (Suc m) (fst tabs)"
    unfolding tabs_def general_inv_def n_def m_def by blast+
  from affine_tables_cells [of seq1 seq2 g g matrix True loc]
  have rA: "rect (Suc n) (Suc m) (trace_table st)" "rect (Suc n) (Suc m) (m_table st)"
    "rect (Suc n) (Suc m) (g1_table st)" "rect (Suc n) (Suc m) (g2_table st)"
    unfolding st_def affine_inv_def n_def m_def by blast+
  show ?thesis
  proof (cases loc)
    case False
    have "shape0 (fst tabs) - 1 = n" "shape1 (fst tabs) - 1 = m"
      "shape0 (trace_table st) - 1 = n" "shape1 (trace_table st) - 1 = m"
      using rT rA(1) by (simp_all add: rect_shape0 rect_shape1)
    with False cell [of n m] show ?thesis
      by (simp add: starts_general_def starts_affine_def Let_def max.assoc)
  next
    case True
    define A where "A = set (concat (snd tabs))"
    define B where "B = set (concat (m_table st) @ concat (g1_table st) @ concat (g2_table st))"
    have A: "A = {get2 (snd tabs) i j | i j. i < Suc n \<and> j < Suc m}"
      unfolding A_def using rS by (rule concat_rect)
    have B: "B = {get2 (m_table st) i j | i j. i < Suc n \<and> j < Suc m}
               \<union> {get2 (g1_table st) i j | i j. i < Suc n \<and> j < Suc m}
               \<union> {get2 (g2_table st) i j | i j. i < Suc n \<and> j < Suc m}"
      unfolding B_def set_append concat_rect [OF rA(2)] concat_rect [OF rA(3)]
        concat_rect [OF rA(4)] by (simp only: Un_assoc)
    have ne: "A \<noteq> {}" unfolding A by blast
    have sub: "A \<subseteq> B"
    proof
      fix a assume "a \<in> A"
      then obtain i j where ij: "i < Suc n" "j < Suc m" "a = get2 (snd tabs) i j" unfolding A by blast
      with cell [of i j] have "a = get2 (m_table st) i j \<or> a = get2 (g1_table st) i j
          \<or> a = get2 (g2_table st) i j" by (auto simp: max_def split: if_splits)
      with ij(1,2) show "a \<in> B" unfolding B by blast
    qed
    have cov: "\<exists>a \<in> A. b \<le> a" if "b \<in> B" for b
    proof -
      from that obtain i j where ij: "i < Suc n" "j < Suc m"
        "b = get2 (m_table st) i j \<or> b = get2 (g1_table st) i j \<or> b = get2 (g2_table st) i j"
        unfolding B by blast
      with cell [of i j] have "b \<le> get2 (snd tabs) i j" by auto
      moreover from ij(1,2) have "get2 (snd tabs) i j \<in> A" unfolding A by blast
      ultimately show ?thesis by blast
    qed
    have fin: "finite A" "finite B" by (simp_all add: A_def B_def)
    have eq: "Max A = Max B" using fin ne sub cov by (rule Max_eq_cover)
    have neA: "concat (snd tabs) \<noteq> []" using ne unfolding A_def by auto
    have neB: "concat (m_table st) @ concat (g1_table st) @ concat (g2_table st) \<noteq> []"
    proof
      assume "concat (m_table st) @ concat (g1_table st) @ concat (g2_table st) = []"
      then have "B = {}" unfolding B_def by (simp only: set_empty2 [symmetric] list.set)
      with ne sub show False by blast
    qed
    have "np_max (concat (snd tabs)) = Max A" unfolding A_def using neA by (rule np_max_Max)
    moreover have "np_max (concat (m_table st) @ concat (g1_table st) @ concat (g2_table st)) = Max B"
      unfolding B_def using neB by (rule np_max_Max)
    ultimately show ?thesis
      using True eq by (simp add: starts_general_def starts_affine_def Let_def)
  qed
qed


text \<open>
  Claim C9. With terminal penalty and a negative penalty \<open>g\<close>, \<open>align_optimal\<close> with the
  affine penalty \<open>(g, g)\<close> and with the general penalty \<open>g\<close> return alignments of the same
  score, in the global and in the local mode, when no candidate sum leaves the \<open>int32\<close>
  range, the sentinel lies below the scores of the first row and column, and no cell of
  either filler takes the branch \<open>from_left = from_top > from_diag\<close>.
\<close>

theorem affine_equal_penalties_same_score:
  assumes "g < 0" and "sentinel_low seq1 seq2 matrix g"
    and "exact_general seq1 seq2 matrix g local" and "exact_affine seq1 seq2 matrix g local"
    and ra: "align_optimal seq1 seq2 matrix (GapInt g) True local = Inr as"
    and rb: "align_optimal seq1 seq2 matrix (GapTuple [g, g]) True local = Inr bs"
    and a: "a \<in> set as" and b: "b \<in> set bs"
  shows "score a = score b"
proof -
  define tabs where "tabs = general_tables seq1 seq2 matrix g True local"
  define st where "st = affine_tables seq1 seq2 matrix g g True local"
  from ra have "traceback seq1 seq2 (fst tabs) (starts_general (fst tabs) (snd tabs) local) = Inr as"
    unfolding align_optimal_def tabs_def by (simp add: Let_def split: if_splits)
  with a have 1: "score a = fst (starts_general (fst tabs) (snd tabs) local)"
    by (auto simp: traceback_def split: sum.splits)
  from rb have "traceback seq1 seq2 (trace_table st) (starts_affine st local) = Inr bs"
    unfolding align_optimal_def st_def by (simp add: Let_def split: if_splits)
  with b have 2: "score b = fst (starts_affine st local)"
    by (auto simp: traceback_def split: sum.splits)
  from equal_penalties_start_score [OF assms(1-4)] 1 2 show ?thesis
    unfolding tabs_def st_def by simp
qed

theorem affine_equal_penalties_same_score_witness:
  "map score (projr (align_optimal \<lparr> get_alphabet = ''ACGT'', code = [0, 3, 0, 1, 2] \<rparr>
       \<lparr> get_alphabet = ''ACGT'', code = [0, 2, 2, 1] \<rparr>
       \<lparr> get_alphabet1 = ''ACGT'', get_alphabet2 = ''ACGT'',
         score_matrix = [[5, - 4, - 4, - 4], [- 4, 5, - 4, - 4], [- 4, - 4, 5, - 4], [- 4, - 4, - 4, 5]] \<rparr>
       (GapInt (- 6)) True False)) = [- 4]
   \<and> map score (projr (align_optimal \<lparr> get_alphabet = ''ACGT'', code = [0, 3, 0, 1, 2] \<rparr>
       \<lparr> get_alphabet = ''ACGT'', code = [0, 2, 2, 1] \<rparr>
       \<lparr> get_alphabet1 = ''ACGT'', get_alphabet2 = ''ACGT'',
         score_matrix = [[5, - 4, - 4, - 4], [- 4, 5, - 4, - 4], [- 4, - 4, 5, - 4], [- 4, - 4, - 4, 5]] \<rparr>
       (GapTuple [- 6, - 6]) True False)) = [- 4]"
proof -
  define s1 where "s1 = \<lparr> get_alphabet = ''ACGT'', code = [0 :: nat, 3, 0, 1, 2] \<rparr>"
  define s2 where "s2 = \<lparr> get_alphabet = ''ACGT'', code = [0 :: nat, 2, 2, 1] \<rparr>"
  define M where "M = \<lparr> get_alphabet1 = ''ACGT'', get_alphabet2 = ''ACGT'',
         score_matrix = [[5 :: int, - 4, - 4, - 4], [- 4, 5, - 4, - 4], [- 4, - 4, 5, - 4],
                         [- 4, - 4, - 4, 5]] \<rparr>"
  define A where "A = \<lparr> sequences = (s1, s2),
             trace = [(0 :: int, 0 :: int), (1, 1), (2, 2), (3, 3), (4, - 1)], score = - 4 :: int \<rparr>"
  define bs where "bs = projr (align_optimal s1 s2 M (GapTuple [- 6, - 6]) True False)"
  have h1: "(- 6 :: int) < 0" by simp
  have h2: "sentinel_low s1 s2 M (- 6)" unfolding s1_def s2_def M_def by code_simp
  have h3: "exact_general s1 s2 M (- 6) False" unfolding s1_def s2_def M_def by code_simp
  have h4: "exact_affine s1 s2 M (- 6) False" unfolding s1_def s2_def M_def by code_simp
  have ea: "align_optimal s1 s2 M (GapInt (- 6)) True False = Inr [A]"
    unfolding s1_def s2_def M_def A_def by code_simp
  have l: "length bs = 1 \<and> isl (align_optimal s1 s2 M (GapTuple [- 6, - 6]) True False) = False"
    unfolding bs_def s1_def s2_def M_def by code_simp
  then have eb: "align_optimal s1 s2 M (GapTuple [- 6, - 6]) True False = Inr bs"
    unfolding bs_def by (simp add: sum.collapse(2))
  from l obtain b where b: "bs = [b]" by (cases bs) auto
  have "A \<in> set [A]" "b \<in> set bs" by (simp_all add: b)
  with h1 h2 h3 h4 ea eb have "score A = score b"
    by (rule affine_equal_penalties_same_score)
  then have "map score bs = [- 4]" unfolding b by (simp add: A_def)
  with ea show ?thesis unfolding bs_def s1_def s2_def M_def A_def by simp
qed

text \<open>Without terminal penalty the scores differ although no cell takes the branch of
  trace value \<open>6\<close>: the affine filler has no transition between the two gap tables. With
  terminal penalty they differ on an input whose cell \<open>(1, 1)\<close> takes that branch.\<close>

theorem affine_equal_penalties_score_differs:
  "map_sum id (map score)
     (align_optimal \<lparr> get_alphabet = ''ABC'', code = [0, 2, 1, 2] \<rparr>
        \<lparr> get_alphabet = ''ABC'', code = [0, 2, 0] \<rparr>
        \<lparr> get_alphabet1 = ''ABC'', get_alphabet2 = ''ABC'',
          score_matrix = [[- 1, 3, - 5], [- 6, 2, - 5], [- 3, - 3, 6]] \<rparr>
        (GapInt (- 4)) False False) = Inr [2]
   \<and> map_sum id (map score)
     (align_optimal \<lparr> get_alphabet = ''ABC'', code = [0, 2, 1, 2] \<rparr>
        \<lparr> get_alphabet = ''ABC'', code = [0, 2, 0] \<rparr>
        \<lparr> get_alphabet1 = ''ABC'', get_alphabet2 = ''ABC'',
          score_matrix = [[- 1, 3, - 5], [- 6, 2, - 5], [- 3, - 3, 6]] \<rparr>
        (GapTuple [- 4, - 4]) False False) = Inr [0]
   \<and> list_all (list_all (\<lambda>t. t \<noteq> 6))
       (fst (general_tables \<lparr> get_alphabet = ''ABC'', code = [0, 2, 1, 2] \<rparr>
          \<lparr> get_alphabet = ''ABC'', code = [0, 2, 0] \<rparr>
          \<lparr> get_alphabet1 = ''ABC'', get_alphabet2 = ''ABC'',
            score_matrix = [[- 1, 3, - 5], [- 6, 2, - 5], [- 3, - 3, 6]] \<rparr>
          (- 4) False False))
   \<and> list_all (list_all (\<lambda>t. t AND 7 \<noteq> 6))
       (trace_table (affine_tables \<lparr> get_alphabet = ''ABC'', code = [0, 2, 1, 2] \<rparr>
          \<lparr> get_alphabet = ''ABC'', code = [0, 2, 0] \<rparr>
          \<lparr> get_alphabet1 = ''ABC'', get_alphabet2 = ''ABC'',
            score_matrix = [[- 1, 3, - 5], [- 6, 2, - 5], [- 3, - 3, 6]] \<rparr>
          (- 4) (- 4) False False))
   \<and> map_sum id (map score)
     (align_optimal \<lparr> get_alphabet = ''A'', code = [0] \<rparr> \<lparr> get_alphabet = ''A'', code = [0, 0] \<rparr>
        \<lparr> get_alphabet1 = ''A'', get_alphabet2 = ''A'', score_matrix = [[- 5]] \<rparr>
        (GapInt (- 1)) True False) = Inr [- 3]
   \<and> map_sum id (map score)
     (align_optimal \<lparr> get_alphabet = ''A'', code = [0] \<rparr> \<lparr> get_alphabet = ''A'', code = [0, 0] \<rparr>
        \<lparr> get_alphabet1 = ''A'', get_alphabet2 = ''A'', score_matrix = [[- 5]] \<rparr>
        (GapTuple [- 1, - 1]) True False) = Inr [- 6, - 6]"
  by code_simp

end
